theory Spec2Isabelle
  imports Main "HOL-Library.Sublist"
begin

section \<open>Strings of the normalizer\<close>

text \<open>
  A Python \<open>str\<close> is a sequence of Unicode code points. The normalizer of
  \<open>slide_creator_v3.py\<close> works on Japanese text, so a string is modelled as a list
  of code points (natural numbers), not as a list of 8-bit characters.
\<close>

type_synonym codepoint = nat
type_synonym pystr = "codepoint list"

text \<open>
  The character tables of the Python runtime (Unicode 14.0, as shipped with CPython 3.11):
  \<open>str.isspace\<close> and the regular expression class \<open>\s\<close>, the line boundaries of
  \<open>str.splitlines\<close>, and the decimal digits of the class \<open>\d\<close>.
\<close>

definition is_space :: "codepoint \<Rightarrow> bool" where
  "is_space c =
     ((0x9 \<le> c \<and> c \<le> 0xD) \<or> (0x1C \<le> c \<and> c \<le> 0x20) \<or> c = 0x85 \<or> c = 0xA0 \<or>
      c = 0x1680 \<or> (0x2000 \<le> c \<and> c \<le> 0x200A) \<or> c = 0x2028 \<or> c = 0x2029 \<or>
      c = 0x202F \<or> c = 0x205F \<or> c = 0x3000)"

definition is_linebreak :: "codepoint \<Rightarrow> bool" where
  "is_linebreak c =
     (c = 0xA \<or> c = 0xB \<or> c = 0xC \<or> c = 0xD \<or> c = 0x1C \<or> c = 0x1D \<or> c = 0x1E \<or>
      c = 0x85 \<or> c = 0x2028 \<or> c = 0x2029)"

definition decimal_blocks :: "codepoint list" where
  "decimal_blocks =
     [0x30, 0x660, 0x6F0, 0x7C0, 0x966, 0x9E6, 0xA66, 0xAE6, 0xB66, 0xBE6, 0xC66, 0xCE6,
      0xD66, 0xDE6, 0xE50, 0xED0, 0xF20, 0x1040, 0x1090, 0x17E0, 0x1810, 0x1946, 0x19D0,
      0x1A80, 0x1A90, 0x1B50, 0x1BB0, 0x1C40, 0x1C50, 0xA620, 0xA8D0, 0xA900, 0xA9D0,
      0xA9F0, 0xAA50, 0xABF0, 0xFF10, 0x104A0, 0x10D30, 0x11066, 0x110F0, 0x11136,
      0x111D0, 0x112F0, 0x11450, 0x114D0, 0x11650, 0x116C0, 0x11730, 0x118E0, 0x11950,
      0x11C50, 0x11D50, 0x11DA0, 0x16A60, 0x16AC0, 0x16B50, 0x1E140, 0x1E2F0, 0x1E950,
      0x1FBF0]"

definition is_decimal :: "codepoint \<Rightarrow> bool" where
  "is_decimal c =
     (list_ex (\<lambda>b. b \<le> c \<and> c < b + 10) decimal_blocks \<or> (0x1D7CE \<le> c \<and> c \<le> 0x1D7FF))"

text \<open>The literals of \<open>postprocess\<close>, written as code points.\<close>

abbreviation NL :: codepoint where "NL \<equiv> 0xA"
abbreviation CR :: codepoint where "CR \<equiv> 0xD"
abbreviation EQUALS :: codepoint where "EQUALS \<equiv> 0x3D"
abbreviation MARU :: codepoint where "MARU \<equiv> 0x3002"
abbreviation GETSU :: codepoint where "GETSU \<equiv> 0x6708"
abbreviation SMALL_KE :: codepoint where "SMALL_KE \<equiv> 0x30F6"

definition P_EQ :: pystr where \<comment> \<open>\<open>"p="\<close>\<close>
  "P_EQ = [0x70, 0x3D]"

definition KAGETSU :: pystr where \<comment> \<open>the replacement of line 227, U+30F6 U+6708\<close>
  "KAGETSU = [0x30F6, 0x6708]"

definition TAISHOGUN :: pystr where \<comment> \<open>the disallowed control-group term, U+5BFE U+7167 U+7FA4\<close>
  "TAISHOGUN = [0x5BFE, 0x7167, 0x7FA4]"

definition CONTROLGUN :: pystr where \<comment> \<open>the canonical control-group term\<close>
  "CONTROLGUN = [0x30B3, 0x30F3, 0x30C8, 0x30ED, 0x30FC, 0x30EB, 0x7FA4]"

definition FREEDOM_FROM :: pystr where \<comment> \<open>\<open>"Freedom from"\<close>\<close>
  "FREEDOM_FROM = [0x46, 0x72, 0x65, 0x65, 0x64, 0x6F, 0x6D, 0x20, 0x66, 0x72, 0x6F, 0x6D]"

definition KAIHI :: pystr where \<comment> \<open>the gloss "avoidance", U+56DE U+907F\<close>
  "KAIHI = [0x56DE, 0x907F]"

definition SLIDE_NI :: pystr where \<comment> \<open>"on the slide", U+30B9 U+30E9 U+30A4 U+30C9 U+306B\<close>
  "SLIDE_NI = [0x30B9, 0x30E9, 0x30A4, 0x30C9, 0x306B]"

definition TEIJI :: pystr where \<comment> \<open>"presented", U+63D0 U+793A\<close>
  "TEIJI = [0x63D0, 0x793A]"

definition HYOJI :: pystr where \<comment> \<open>"displayed", U+8868 U+793A\<close>
  "HYOJI = [0x8868, 0x793A]"

text \<open>The character classes of the four bracketed sets in the regular expressions.\<close>

definition is_pletter :: "codepoint \<Rightarrow> bool" where \<comment> \<open>line 224: P, fullwidth small p, fullwidth capital P\<close>
  "is_pletter c = (c = 0x50 \<or> c = 0xFF50 \<or> c = 0xFF30)"

definition is_open :: "codepoint \<Rightarrow> bool" where \<comment> \<open>line 234\<close>
  "is_open c = (c = 0x300C \<or> c = 0x300E \<or> c = 0x201C \<or> c = 0x22 \<or> c = 0xFF02)"

definition is_close :: "codepoint \<Rightarrow> bool" where \<comment> \<open>line 235; the source lists U+300E here, not U+300F\<close>
  "is_close c = (c = 0x300D \<or> c = 0x300E \<or> c = 0x201D \<or> c = 0x22 \<or> c = 0xFF02)"

definition in_sentence :: "codepoint \<Rightarrow> bool" where \<comment> \<open>line 243: any character but newline and the full stop\<close>
  "in_sentence c = (c \<noteq> NL \<and> c \<noteq> MARU)"

section \<open>Regular expressions as backtracking matchers\<close>

text \<open>
  Python's \<open>re\<close> is a backtracking matcher. Each construct used by \<open>postprocess\<close> is a
  function from a continuation to a matcher: it consumes a part of the input, hands the rest
  to the continuation, and tries its next alternative when the continuation fails. A matcher
  returns the input left after the match.
\<close>

type_synonym cont = "pystr \<Rightarrow> pystr option"

definition re_lit :: "pystr \<Rightarrow> cont \<Rightarrow> cont" where
  "re_lit p k s = (if prefix p s then k (drop (length p) s) else None)"

definition re_set :: "(codepoint \<Rightarrow> bool) \<Rightarrow> cont \<Rightarrow> cont" where
  "re_set P k s = (case s of [] \<Rightarrow> None | c # cs \<Rightarrow> if P c then k cs else None)"

fun re_star :: "(codepoint \<Rightarrow> bool) \<Rightarrow> cont \<Rightarrow> cont" where \<comment> \<open>greedy \<open>*\<close>\<close>
  "re_star P k [] = k []"
| "re_star P k (c # cs) =
     (if P c then (case re_star P k cs of Some r \<Rightarrow> Some r | None \<Rightarrow> k (c # cs))
      else k (c # cs))"

fun re_lazy :: "(codepoint \<Rightarrow> bool) \<Rightarrow> cont \<Rightarrow> cont" where \<comment> \<open>lazy \<open>*?\<close>\<close>
  "re_lazy P k [] = k []"
| "re_lazy P k (c # cs) =
     (case k (c # cs) of Some r \<Rightarrow> Some r | None \<Rightarrow> if P c then re_lazy P k cs else None)"

definition re_plus :: "(codepoint \<Rightarrow> bool) \<Rightarrow> cont \<Rightarrow> cont" where \<comment> \<open>greedy \<open>+\<close>\<close>
  "re_plus P k = re_set P (re_star P k)"

definition re_alt :: "(cont \<Rightarrow> cont) \<Rightarrow> (cont \<Rightarrow> cont) \<Rightarrow> cont \<Rightarrow> cont" where
  "re_alt a b k s = (case a k s of Some r \<Rightarrow> Some r | None \<Rightarrow> b k s)"

definition re_end :: "cont \<Rightarrow> cont" where \<comment> \<open>\<open>$\<close>: at the end, or before a final newline\<close>
  "re_end k s = (if s = [] \<or> s = [NL] then k s else None)"

text \<open>
  The five patterns. A pattern is tried at a position of the text: it gets the character
  before the position (\<open>None\<close> at the start of the text), for the lookbehind of line 227 and
  the anchor \<open>^\<close> of line 234, and the text from the position on.
\<close>

type_synonym pattern = "codepoint option \<Rightarrow> pystr \<Rightarrow> pystr option"

definition pat_pvalue :: pattern where \<comment> \<open>line 224\<close>
  "pat_pvalue prev =
     re_set is_pletter (re_star is_space (re_lit [EQUALS] (re_star is_space Some)))"

definition after_digit :: "codepoint option \<Rightarrow> bool" where \<comment> \<open>the lookbehind \<open>(?<=\d)\<close>\<close>
  "after_digit prev = (case prev of None \<Rightarrow> False | Some d \<Rightarrow> is_decimal d)"

definition pat_month :: pattern where \<comment> \<open>line 227\<close>
  "pat_month prev = (if after_digit prev then re_lit [GETSU] Some else (\<lambda>s. None))"

definition pat_open :: pattern where \<comment> \<open>line 234\<close>
  "pat_open prev = (if prev = None then re_plus is_open Some else (\<lambda>s. None))"

definition pat_close :: pattern where \<comment> \<open>line 235\<close>
  "pat_close prev = re_plus is_close (re_end Some)"

definition pat_slide :: pattern where \<comment> \<open>line 243\<close>
  "pat_slide prev =
     re_lit SLIDE_NI (re_lazy in_sentence (re_alt (re_lit TEIJI) (re_lit HYOJI)
       (re_lazy in_sentence (re_lit [MARU] Some))))"

text \<open>
  \<open>re.sub\<close>: scan the text from the left; where the pattern matches, write the replacement
  and go on after the match; elsewhere copy one character. None of the five patterns
  matches the empty string, so the treatment of empty matches is not modelled: a match
  that consumes nothing counts as no match.
\<close>

function re_sub :: "pattern \<Rightarrow> pystr \<Rightarrow> codepoint option \<Rightarrow> pystr \<Rightarrow> pystr" where
  "re_sub pat repl prev [] = []"
| "re_sub pat repl prev (c # cs) =
     (case pat prev (c # cs) of
        None \<Rightarrow> c # re_sub pat repl (Some c) cs
      | Some r \<Rightarrow>
          if length r \<le> length cs
          then repl @ re_sub pat repl (Some ((c # cs) ! (length cs - length r))) r
          else c # re_sub pat repl (Some c) cs)"
  by pat_completeness auto
termination
  by (relation "measure (\<lambda>(pat, repl, prev, s). length s)") auto

section \<open>The string methods\<close>

definition strip :: "pystr \<Rightarrow> pystr" where \<comment> \<open>\<open>str.strip()\<close>\<close>
  "strip s = rev (dropWhile is_space (rev (dropWhile is_space s)))"

text \<open>
  \<open>str.splitlines()\<close>: a line runs up to the next line boundary; \<open>\r\n\<close> is one boundary;
  no line follows a boundary at the end of the text.
\<close>

function splitlines :: "pystr \<Rightarrow> pystr list" where
  "splitlines s =
     (if s = [] then []
      else (case dropWhile (\<lambda>c. \<not> is_linebreak c) s of
              [] \<Rightarrow> [s]
            | c # r \<Rightarrow>
                takeWhile (\<lambda>c. \<not> is_linebreak c) s #
                  splitlines (if c = CR \<and> take 1 r = [NL] then drop 1 r else r)))"
  by pat_completeness auto
termination
proof (relation "measure length", goal_cases)
  case 1
  show ?case by simp
next
  case (2 s c r)
  have "length (dropWhile (\<lambda>c. \<not> is_linebreak c) s) \<le> length s"
    by (rule length_dropWhile_le)
  with 2 show ?case by (auto simp: drop_Suc split: if_splits)
qed

fun join :: "pystr \<Rightarrow> pystr list \<Rightarrow> pystr" where \<comment> \<open>\<open>sep.join(lines)\<close>\<close>
  "join sep [] = []"
| "join sep [l] = l"
| "join sep (l # ls) = l @ sep @ join sep ls"

text \<open>
  \<open>str.replace(old, new)\<close>: the occurrences of \<open>old\<close> are found from the left, without
  overlap. With an empty \<open>old\<close>, Python puts \<open>new\<close> before every character and at the end.
\<close>

function replace_from :: "pystr \<Rightarrow> pystr \<Rightarrow> pystr \<Rightarrow> pystr" where
  "replace_from old new [] = []"
| "replace_from old new (c # cs) =
     (if old \<noteq> [] \<and> prefix old (c # cs)
      then new @ replace_from old new (drop (length old) (c # cs))
      else c # replace_from old new cs)"
  by pat_completeness auto
termination
  by (relation "measure (\<lambda>(old, new, s). length s)") (auto simp: neq_Nil_conv)

definition py_replace :: "pystr \<Rightarrow> pystr \<Rightarrow> pystr \<Rightarrow> pystr" where
  "py_replace s old new =
     (if old = [] then new @ concat (map (\<lambda>c. c # new) s) else replace_from old new s)"

section \<open>The normalizer\<close>

datatype py_error = IndexError

definition list_assign :: "'a list \<Rightarrow> nat \<Rightarrow> 'a \<Rightarrow> py_error + 'a list" where \<comment> \<open>\<open>lines[i] = t\<close>\<close>
  "list_assign xs i v = (if i < length xs then Inr (xs[i := v]) else Inl IndexError)"

definition strip_quotes :: "pystr \<Rightarrow> pystr" where \<comment> \<open>lines 233 to 235\<close>
  "strip_quotes line =
     (let t = strip line;
          t = re_sub pat_open [] None t;
          t = re_sub pat_close [] None t
      in t)"

fun title_loop :: "(nat \<times> pystr) list \<Rightarrow> pystr list \<Rightarrow> py_error + pystr list" where
  "title_loop [] lines = Inr lines"
| "title_loop ((i, line) # rest) lines =
     (if strip line \<noteq> [] then list_assign lines i (strip_quotes line)
      else title_loop rest lines)"

definition pvalue_pass :: "pystr \<Rightarrow> pystr" where \<comment> \<open>line 224\<close>
  "pvalue_pass text = re_sub pat_pvalue P_EQ None text"

definition month_pass :: "pystr \<Rightarrow> pystr" where \<comment> \<open>line 227\<close>
  "month_pass text = re_sub pat_month KAGETSU None text"

definition title_pass :: "pystr \<Rightarrow> py_error + pystr" where \<comment> \<open>lines 230 to 238\<close>
  "title_pass text =
     (let lines = splitlines text
      in case title_loop (enumerate 0 lines) lines of
           Inl e \<Rightarrow> Inl e
         | Inr lines' \<Rightarrow> Inr (join [NL] lines'))"

definition terms_pass :: "pystr \<Rightarrow> pystr" where \<comment> \<open>lines 241 and 242\<close>
  "terms_pass text = py_replace (py_replace text TAISHOGUN CONTROLGUN) FREEDOM_FROM KAIHI"

definition slide_pass :: "pystr \<Rightarrow> pystr" where \<comment> \<open>line 243\<close>
  "slide_pass text = re_sub pat_slide [] None text"

definition postprocess :: "pystr \<Rightarrow> py_error + pystr" where
  "postprocess text =
     (if text = [] then Inr text
      else (case title_pass (month_pass (pvalue_pass text)) of
              Inl e \<Rightarrow> Inl e
            | Inr text' \<Rightarrow> Inr (slide_pass (terms_pass text'))))"

section \<open>The call of the manuscript generator\<close>






definition wait_exponential :: "nat \<Rightarrow> nat \<Rightarrow> nat \<Rightarrow> nat \<Rightarrow> nat" where
  "wait_exponential multiplier mn mx attempt_number =
     max (max 0 mn) (min (multiplier * 2 ^ (attempt_number - 1)) mx)"






section \<open>Notions used to state the properties\<close>

fun contains :: "pystr \<Rightarrow> pystr \<Rightarrow> bool" where \<comment> \<open>Python's \<open>p in s\<close>\<close>
  "contains p [] = (p = [])"
| "contains p (c # cs) = (prefix p (c # cs) \<or> contains p cs)"

fun re_search :: "pattern \<Rightarrow> codepoint option \<Rightarrow> pystr \<Rightarrow> bool" where \<comment> \<open>the pattern matches somewhere\<close>
  "re_search pat prev [] = (pat prev [] \<noteq> None)"
| "re_search pat prev (c # cs) = (pat prev (c # cs) \<noteq> None \<or> re_search pat (Some c) cs)"

fun title_lines :: "pystr list \<Rightarrow> pystr list" where \<comment> \<open>what the loop of lines 231 to 237 leaves in \<open>lines\<close>\<close>
  "title_lines [] = []"
| "title_lines (l # ls) = (if strip l \<noteq> [] then strip_quotes l # ls else l # title_lines ls)"

abbreviation nlines :: "pystr \<Rightarrow> nat" where \<comment> \<open>the number of lines, as \<open>splitlines\<close> counts them\<close>
  "nlines t \<equiv> length (splitlines t)"

abbreviation no_break :: "pystr \<Rightarrow> bool" where
  "no_break l \<equiv> list_all (\<lambda>c. \<not> is_linebreak c) l"

definition after_equals :: cont where \<comment> \<open>the tail \<open>=\s*\<close> of the pattern of line 224, in closed form\<close>
  "after_equals s =
     (case s of [] \<Rightarrow> None | e # r \<Rightarrow> if e = EQUALS then Some (dropWhile is_space r) else None)"

abbreviation month_from :: "codepoint option \<Rightarrow> pystr \<Rightarrow> pystr" where
  "month_from \<equiv> re_sub pat_month KAGETSU"




declare re_sub.simps(2) [simp del]

section \<open>The matchers in closed form\<close>

lemma re_lit_single:
  "re_lit [x] k s = (case s of [] \<Rightarrow> None | e # r \<Rightarrow> if e = x then k r else None)"
  by (cases s) (auto simp: re_lit_def)

lemma re_star_skip:
  assumes "\<And>c cs. P c \<Longrightarrow> k (c # cs) = None"
  shows "re_star P k s = k (dropWhile P s)"
  using assms by (induction s) (auto split: option.splits)

lemma re_star_Some: "re_star P Some s = Some (dropWhile P s)"
  by (induction s) auto

lemma not_space_EQUALS: "\<not> is_space EQUALS"
  by (simp add: is_space_def)

lemma after_equals_eq: "re_lit [EQUALS] (re_star is_space Some) = after_equals"
  by (rule ext) (simp add: re_lit_single re_star_Some after_equals_def split: list.splits)

lemma pat_pvalue_eq:
  "pat_pvalue prev s =
     (case s of [] \<Rightarrow> None
      | c # cs \<Rightarrow> if is_pletter c then after_equals (dropWhile is_space cs) else None)"
proof -
  have "\<And>c cs. is_space c \<Longrightarrow> after_equals (c # cs) = None"
    using not_space_EQUALS by (auto simp: after_equals_def)
  then have "\<And>s. re_star is_space after_equals s = after_equals (dropWhile is_space s)"
    by (rule re_star_skip)
  then show ?thesis
    by (simp add: pat_pvalue_def re_set_def after_equals_eq split: list.splits)
qed

lemma pat_month_eq:
  "pat_month prev s =
     (case s of [] \<Rightarrow> None
      | c # cs \<Rightarrow> if c = GETSU \<and> after_digit prev then Some cs else None)"
  by (auto simp: pat_month_def re_lit_single split: list.splits)

section \<open>Substitution without a match\<close>

lemma re_sub_no_match: "\<not> re_search pat prev s \<Longrightarrow> re_sub pat repl prev s = s"
  by (induction s arbitrary: prev) (simp_all add: re_sub.simps(2))

lemma replace_from_no_match: "\<not> contains old s \<Longrightarrow> replace_from old new s = s"
  by (induction s) simp_all

lemma py_replace_no_match: "old \<noteq> [] \<Longrightarrow> \<not> contains old s \<Longrightarrow> py_replace s old new = s"
  by (simp add: py_replace_def replace_from_no_match)

section \<open>The month pass\<close>

lemma month_from_Cons:
  "month_from prev (c # cs) =
     (if c = GETSU \<and> after_digit prev then SMALL_KE # GETSU # month_from (Some c) cs
      else c # month_from (Some c) cs)"
  by (simp add: re_sub.simps(2) pat_month_eq KAGETSU_def)

lemma not_decimal_KE: "\<not> is_decimal SMALL_KE"
  by (simp add: is_decimal_def decimal_blocks_def)

lemma not_decimal_GETSU: "\<not> is_decimal GETSU"
  by (simp add: is_decimal_def decimal_blocks_def)

lemma month_from_append:
  "month_from prev (xs @ ys) =
     month_from prev xs @ month_from (if xs = [] then prev else Some (last xs)) ys"
  by (induction xs arbitrary: prev) (simp_all add: month_from_Cons)

lemma month_from_cong:
  "after_digit p = after_digit q \<Longrightarrow> month_from p s = month_from q s"
  by (cases s) (simp_all add: month_from_Cons)

lemma month_from_idem:
  "(after_digit q \<longrightarrow> after_digit p) \<Longrightarrow> month_from q (month_from p s) = month_from p s"
proof (induction s arbitrary: p q)
  case Nil
  show ?case by simp
next
  case (Cons c cs)
  have ke: "\<not> after_digit (Some SMALL_KE)"
    by (simp add: after_digit_def not_decimal_KE)
  show ?case
  proof (cases "c = GETSU \<and> after_digit p")
    case True
    then show ?thesis
      using Cons.IH [of "Some GETSU" "Some GETSU"] ke
      by (simp add: month_from_Cons)
  next
    case False
    then show ?thesis
      using Cons.IH [of "Some c" "Some c"] Cons.prems
      by (auto simp add: month_from_Cons)
  qed
qed

section \<open>Lines\<close>

lemma splitlines_Nil: "splitlines [] = []"
  by simp

lemma splitlines_Cons:
  "splitlines (c # cs) =
     (if is_linebreak c
      then [] # splitlines (if c = CR \<and> take 1 cs = [NL] then drop 1 cs else cs)
      else (case splitlines cs of [] \<Rightarrow> [[c]] | l # ls \<Rightarrow> (c # l) # ls))"
proof (cases "is_linebreak c")
  case True
  then show ?thesis by (subst splitlines.simps) simp
next
  case False
  show ?thesis
  proof (cases "cs = []")
    case True
    with False show ?thesis by (subst splitlines.simps) simp
  next
    case ne: False
    show ?thesis
    proof (cases "dropWhile (\<lambda>c. \<not> is_linebreak c) cs")
      case Nil
      with False ne show ?thesis
        by (subst splitlines.simps, subst (2) splitlines.simps) (simp del: dropWhile_eq_Nil_conv)
    next
      case (Cons d r)
      with False ne show ?thesis
        by (subst splitlines.simps, subst (2) splitlines.simps) simp
    qed
  qed
qed

declare splitlines.simps [simp del]

declare splitlines_Nil [simp]

section \<open>Evaluation on concrete texts\<close>

lemmas char_defs = is_space_def is_linebreak_def is_decimal_def decimal_blocks_def is_pletter_def
  is_open_def is_close_def in_sentence_def
lemmas lit_defs = P_EQ_def KAGETSU_def TAISHOGUN_def CONTROLGUN_def FREEDOM_FROM_def KAIHI_def
  SLIDE_NI_def TEIJI_def HYOJI_def
lemmas re_defs = re_lit_def re_set_def re_plus_def re_alt_def re_end_def pat_pvalue_def
  pat_month_def pat_open_def pat_close_def pat_slide_def after_digit_def re_sub.simps(2)
lemmas pass_defs = postprocess_def pvalue_pass_def month_pass_def title_pass_def terms_pass_def
  slide_pass_def strip_quotes_def strip_def py_replace_def list_assign_def enumerate_eq_zip
  splitlines_Nil splitlines_Cons Let_def

section \<open>C6: the month suffix\<close>

lemma month_pass_idem: "month_pass (month_pass t) = month_pass t"
  by (simp add: month_pass_def month_from_idem)

lemma month_digit:
  assumes "is_decimal d"
  shows "month_pass (pre @ d # GETSU # post) = month_pass pre @ d # SMALL_KE # GETSU # month_pass post"
proof -
  have d: "d \<noteq> GETSU" using assms not_decimal_GETSU by auto
  have "month_from (Some d) (GETSU # post) = SMALL_KE # GETSU # month_from (Some GETSU) post"
    using assms by (simp add: month_from_Cons after_digit_def)
  moreover have "month_from (Some GETSU) post = month_from None post"
    by (rule month_from_cong) (simp add: after_digit_def not_decimal_GETSU)
  moreover have "month_from None (pre @ [d] @ GETSU # post) =
      month_from None (pre @ [d]) @ month_from (Some d) (GETSU # post)"
    using month_from_append [of None "pre @ [d]" "GETSU # post"] by simp
  moreover have "month_from None (pre @ [d]) = month_from None pre @ [d]"
    using d by (simp add: month_from_append month_from_Cons)
  ultimately show ?thesis by (simp add: month_pass_def)
qed

lemma month_suffixed:
  "month_pass (pre @ SMALL_KE # GETSU # post) = month_pass pre @ SMALL_KE # GETSU # month_pass post"
proof -
  have "month_from p (SMALL_KE # GETSU # post) = SMALL_KE # GETSU # month_from None post" for p
    using month_from_cong [of "Some GETSU" None post]
    by (simp add: month_from_Cons after_digit_def not_decimal_KE not_decimal_GETSU)
  then show ?thesis by (simp add: month_pass_def month_from_append)
qed

lemma postprocess_4_getsu: "postprocess [0x34, GETSU] = Inr [0x34, SMALL_KE, GETSU]"
  by (simp add: pass_defs re_defs lit_defs char_defs)

lemma postprocess_4_kagetsu: "postprocess [0x34, SMALL_KE, GETSU] = Inr [0x34, SMALL_KE, GETSU]"
  by (simp add: pass_defs re_defs lit_defs char_defs)

text \<open>
  C6. The month pass (line 227) rewrites the month character U+6708 to U+30F6 U+6708 wherever
  a decimal digit stands immediately before it, and leaves the digit and the text around it
  as the pass leaves them elsewhere; an occurrence that already carries the suffix is copied
  unchanged; the pass applied twice gives what it gives once; and the normalizer turns
  \<open>4\<close> U+6708 into \<open>4\<close> U+30F6 U+6708 and returns \<open>4\<close> U+30F6 U+6708 unchanged.
\<close>

theorem month_suffix_rewrite:
  "(is_decimal d \<longrightarrow>
      month_pass (pre @ d # GETSU # post) =
        month_pass pre @ d # SMALL_KE # GETSU # month_pass post) \<and>
   month_pass (pre @ SMALL_KE # GETSU # post) =
     month_pass pre @ SMALL_KE # GETSU # month_pass post \<and>
   month_pass (month_pass t) = month_pass t \<and>
   postprocess [0x34, GETSU] = Inr [0x34, SMALL_KE, GETSU] \<and>
   postprocess [0x34, SMALL_KE, GETSU] = Inr [0x34, SMALL_KE, GETSU]"
  using month_digit month_suffixed month_pass_idem postprocess_4_getsu postprocess_4_kagetsu
  by blast

theorem month_suffix_rewrite_witness:
  "is_decimal 0x34 \<and>
   month_pass ([0x33] @ 0x34 # GETSU # [0x3002]) = [0x33, 0x34, SMALL_KE, GETSU, 0x3002] \<and>
   month_pass (month_pass [0x34, GETSU]) = [0x34, SMALL_KE, GETSU]"
proof -
  have d: "is_decimal 0x34"
    by (simp add: char_defs)
  have e: "month_pass [0x33] = [0x33]" "month_pass [0x3002] = [0x3002]"
    "month_pass [0x34, GETSU] = [0x34, SMALL_KE, GETSU]"
    by (simp_all add: month_pass_def month_from_Cons after_digit_def char_defs)
  show ?thesis
    using d e month_suffix_rewrite [of "0x34" "[0x33]" "[0x3002]" "[0x34, GETSU]"]
    by simp
qed

section \<open>The title loop never leaves the list\<close>

lemma title_loop_enumerate:
  "length pre = n \<Longrightarrow> title_loop (enumerate n xs) (pre @ xs) = Inr (pre @ title_lines xs)"
proof (induction xs arbitrary: pre n)
  case Nil
  show ?case by simp
next
  case (Cons l ls)
  show ?case
  proof (cases "strip l = []")
    case True
    then show ?thesis
      using Cons.IH [of "pre @ [l]" "Suc n"] Cons.prems by simp
  next
    case False
    then show ?thesis
      using Cons.prems by (auto simp add: list_assign_def list_update_append)
  qed
qed

lemma title_pass_eq: "title_pass text = Inr (join [NL] (title_lines (splitlines text)))"
  using title_loop_enumerate [of "[]" 0 "splitlines text"] by (simp add: title_pass_def)


lemma terms_pass_no_match:
  "\<not> contains TAISHOGUN t \<Longrightarrow> \<not> contains FREEDOM_FROM t \<Longrightarrow> terms_pass t = t"
  by (simp add: terms_pass_def py_replace_no_match TAISHOGUN_def FREEDOM_FROM_def)

section \<open>C8: the normalizer is total\<close>



section \<open>The p-value pass\<close>

lemma re_sub_prev_irrelevant:
  assumes "\<And>p q s. pat p s = pat q s"
  shows "re_sub pat repl p s = re_sub pat repl q s"
proof (cases s)
  case Nil
  then show ?thesis by simp
next
  case (Cons c cs)
  then show ?thesis
    using assms [of p "c # cs" q] by (simp add: re_sub.simps(2))
qed

lemma after_equals_length: "after_equals s = Some r \<Longrightarrow> length r < length s"
proof (cases s)
  case Nil
  assume "after_equals s = Some r"
  with Nil show ?thesis by (simp add: after_equals_def)
next
  case (Cons e r')
  assume "after_equals s = Some r"
  with Cons have "r = dropWhile is_space r'"
    by (simp add: after_equals_def split: if_splits)
  with Cons show ?thesis
    using length_dropWhile_le [of is_space r'] by simp
qed

lemma pvalue_match_length:
  "after_equals (dropWhile is_space cs) = Some r \<Longrightarrow> length r < length cs"
  using after_equals_length [of "dropWhile is_space cs" r] length_dropWhile_le [of is_space cs]
  by simp

lemma pvalue_pass_Nil: "pvalue_pass [] = []"
  by (simp add: pvalue_pass_def)

lemma pvalue_pass_Cons:
  "pvalue_pass (c # cs) =
     (if is_pletter c
      then (case after_equals (dropWhile is_space cs) of
              None \<Rightarrow> c # pvalue_pass cs
            | Some r \<Rightarrow> P_EQ @ pvalue_pass r)
      else c # pvalue_pass cs)"
proof -
  have irr: "re_sub pat_pvalue P_EQ p s = re_sub pat_pvalue P_EQ None s" for p s
    by (rule re_sub_prev_irrelevant) (simp add: pat_pvalue_def)
  show ?thesis
    unfolding pvalue_pass_def
    by (subst re_sub.simps(2))
      (auto simp: pat_pvalue_eq irr [of "Some _"] split: option.splits dest: pvalue_match_length)
qed

lemma dropWhile_stop: "ys = [] \<or> \<not> P (hd ys) \<Longrightarrow> dropWhile P ys = ys"
  by (cases ys) auto

lemma dropWhile_append_stop:
  "ys = [] \<or> \<not> P (hd ys) \<Longrightarrow> dropWhile P (xs @ ys) = dropWhile P xs @ ys"
  by (induction xs) (auto simp: dropWhile_stop)

lemma dropWhile_all: "list_all P w \<Longrightarrow> dropWhile P (w @ ys) = dropWhile P ys"
  by (induction w) auto

lemma after_equals_append:
  assumes "ys = [] \<or> (\<not> is_space (hd ys) \<and> hd ys \<noteq> EQUALS)"
  shows "after_equals (dropWhile is_space (cs @ ys)) =
     map_option (\<lambda>r. r @ ys) (after_equals (dropWhile is_space cs))"
proof -
  have stop: "ys = [] \<or> \<not> is_space (hd ys)" using assms by auto
  have d: "dropWhile is_space (cs @ ys) = dropWhile is_space cs @ ys"
    using stop by (rule dropWhile_append_stop)
  show ?thesis
  proof (cases "dropWhile is_space cs")
    case Nil
    then show ?thesis
      using assms d by (cases ys) (auto simp: after_equals_def simp del: dropWhile_eq_Nil_conv)
  next
    case (Cons e r')
    then show ?thesis
      using d dropWhile_append_stop [where P = is_space and xs = r' and ys = ys] stop
      by (simp add: after_equals_def del: dropWhile_eq_Nil_conv)
  qed
qed

lemma pvalue_pass_append:
  assumes "ys = [] \<or> (\<not> is_space (hd ys) \<and> hd ys \<noteq> EQUALS)"
  shows "pvalue_pass (xs @ ys) = pvalue_pass xs @ pvalue_pass ys"
proof (induction "length xs" arbitrary: xs rule: less_induct)
  case less
  show ?case
  proof (cases xs)
    case Nil
    then show ?thesis by (simp add: pvalue_pass_Nil)
  next
    case (Cons c cs)
    have tl: "pvalue_pass (cs @ ys) = pvalue_pass cs @ pvalue_pass ys"
      using less [of cs] Cons by simp
    show ?thesis
    proof (cases "after_equals (dropWhile is_space cs)")
      case None
      then show ?thesis
        using Cons tl after_equals_append [OF assms, of cs]
        by (simp add: pvalue_pass_Cons)
    next
      case (Some r)
      then have "length r < length xs"
        using pvalue_match_length [of cs r] Cons by simp
      then have "pvalue_pass (r @ ys) = pvalue_pass r @ pvalue_pass ys"
        by (rule less)
      then show ?thesis
        using Cons tl Some after_equals_append [OF assms, of cs]
        by (simp add: pvalue_pass_Cons)
    qed
  qed
qed

lemma pvalue_pass_here:
  assumes "is_pletter c" "list_all is_space w1" "list_all is_space w2"
    "r = [] \<or> \<not> is_space (hd r)"
  shows "pvalue_pass (c # w1 @ EQUALS # w2 @ r) = P_EQ @ pvalue_pass r"
proof -
  have w2: "dropWhile is_space (w2 @ r) = r"
    using assms(3,4) by (simp add: dropWhile_all dropWhile_stop)
  have "dropWhile is_space (w1 @ EQUALS # w2 @ r) = EQUALS # w2 @ r"
    using assms(2) not_space_EQUALS by (induction w1) auto
  then have "after_equals (dropWhile is_space (w1 @ EQUALS # w2 @ r)) = Some r"
    using w2 by (simp add: after_equals_def)
  then show ?thesis
    using assms(1) by (simp add: pvalue_pass_Cons)
qed

lemma pletter_not_space: "is_pletter c \<Longrightarrow> \<not> is_space c \<and> c \<noteq> EQUALS"
  by (auto simp: is_pletter_def is_space_def)

lemma pvalue_rewrite:
  assumes "is_pletter c" "list_all is_space w1" "list_all is_space w2"
    "r = [] \<or> \<not> is_space (hd r)"
  shows "pvalue_pass (pre @ c # w1 @ EQUALS # w2 @ r) = pvalue_pass pre @ P_EQ @ pvalue_pass r"
proof -
  have "pvalue_pass (pre @ (c # w1 @ EQUALS # w2 @ r)) =
      pvalue_pass pre @ pvalue_pass (c # w1 @ EQUALS # w2 @ r)"
    by (rule pvalue_pass_append) (use pletter_not_space [OF assms(1)] in simp)
  then show ?thesis
    using pvalue_pass_here [OF assms] by simp
qed

lemma pvalue_pass_spaces: "list_all is_space w \<Longrightarrow> pvalue_pass (w @ d) = w @ pvalue_pass d"
proof (induction w)
  case Nil
  show ?case by simp
next
  case (Cons a w)
  then have "\<not> is_pletter a"
    using pletter_not_space [of a] by auto
  with Cons show ?case by (simp add: pvalue_pass_Cons)
qed

lemma pvalue_pass_hd:
  "s \<noteq> [] \<Longrightarrow> pvalue_pass s \<noteq> [] \<and> (hd (pvalue_pass s) = hd s \<or> hd (pvalue_pass s) = 0x70)"
  by (cases s) (auto simp: pvalue_pass_Cons P_EQ_def split: option.splits)

lemma after_equals_pvalue:
  assumes "after_equals (dropWhile is_space cs) = None"
  shows "after_equals (dropWhile is_space (pvalue_pass cs)) = None"
proof -
  define w where "w = takeWhile is_space cs"
  define d where "d = dropWhile is_space cs"
  have cs: "cs = w @ d" and w: "list_all is_space w"
    by (auto simp: w_def d_def list_all_iff dest: set_takeWhileD)
  have pv: "pvalue_pass cs = w @ pvalue_pass d"
    using pvalue_pass_spaces [OF w, of d] cs by simp
  show ?thesis
  proof (cases "d = []")
    case True
    have "dropWhile is_space w = []"
      using w by (simp add: list_all_iff)
    with True pv show ?thesis
      by (simp add: pvalue_pass_Nil after_equals_def del: dropWhile_eq_Nil_conv)
  next
    case False
    then have nsp: "\<not> is_space (hd d)"
      unfolding d_def using hd_dropWhile [of is_space cs] by simp
    from False assms have neq: "hd d \<noteq> EQUALS"
      unfolding d_def [symmetric] by (cases d) (auto simp: after_equals_def split: if_splits)
    have h: "pvalue_pass d \<noteq> [] \<and> (hd (pvalue_pass d) = hd d \<or> hd (pvalue_pass d) = 0x70)"
      using False by (rule pvalue_pass_hd)
    have p: "\<not> is_space 0x70" by (simp add: is_space_def)
    from h nsp p have "\<not> is_space (hd (pvalue_pass d))" by auto
    then have "dropWhile is_space (w @ pvalue_pass d) = pvalue_pass d"
      using w by (simp add: dropWhile_all dropWhile_stop)
    moreover from h neq have "after_equals (pvalue_pass d) = None"
      by (cases "pvalue_pass d") (auto simp: after_equals_def)
    ultimately show ?thesis using pv by simp
  qed
qed

lemma pvalue_pass_idem: "pvalue_pass (pvalue_pass s) = pvalue_pass s"
proof (induction "length s" arbitrary: s rule: less_induct)
  case less
  show ?case
  proof (cases s)
    case Nil
    then show ?thesis by (simp add: pvalue_pass_Nil)
  next
    case (Cons c cs)
    have tl: "pvalue_pass (pvalue_pass cs) = pvalue_pass cs"
      using less [of cs] Cons by simp
    have np: "\<not> is_pletter 0x70" "\<not> is_pletter EQUALS"
      by (simp_all add: is_pletter_def)
    show ?thesis
    proof (cases "is_pletter c")
      case False
      then show ?thesis using Cons tl by (simp add: pvalue_pass_Cons)
    next
      case True
      show ?thesis
      proof (cases "after_equals (dropWhile is_space cs)")
        case None
        then show ?thesis
          using Cons tl True after_equals_pvalue [OF None]
          by (simp add: pvalue_pass_Cons)
      next
        case (Some r)
        then have "length r < length s"
          using pvalue_match_length [of cs r] Cons by simp
        then have "pvalue_pass (pvalue_pass r) = pvalue_pass r"
          by (rule less)
        then show ?thesis
          using Cons True Some np by (simp add: pvalue_pass_Cons P_EQ_def)
      qed
    qed
  qed
qed

section \<open>Literal replacement\<close>

lemma replace_from_prefix:
  assumes "new \<noteq> []" "hd new \<notin> set p" "prefix p (replace_from old new s)"
  shows "prefix p s \<and> (p = [] \<or> \<not> (old \<noteq> [] \<and> prefix old s))"
  using assms(2,3)
proof (induction p arbitrary: s)
  case Nil
  show ?case by simp
next
  case (Cons a p)
  show ?case
  proof (cases s)
    case Nil
    with Cons.prems show ?thesis by simp
  next
    case (Cons c cs)
    show ?thesis
    proof (cases "old \<noteq> [] \<and> prefix old (c # cs)")
      case True
      with Cons Cons.prems assms(1) show ?thesis
        by (cases new) auto
    next
      case False
      with Cons Cons.prems Cons.IH [of cs] show ?thesis
        by auto
    qed
  qed
qed

lemma replace_from_not_prefix:
  assumes "old \<noteq> []" "new \<noteq> []" "hd new \<notin> set old"
  shows "\<not> prefix old (replace_from old new s)"
  using replace_from_prefix [OF assms(2,3), of old s] assms(1) by auto

lemma contains_skip: "p \<noteq> [] \<Longrightarrow> hd p \<notin> set n \<Longrightarrow> contains p (n @ x) = contains p x"
proof (induction n)
  case Nil
  show ?case by simp
next
  case (Cons a n)
  then have "\<not> prefix p (a # n @ x)"
    by (cases p) auto
  with Cons show ?case by simp
qed

lemma contains_drop: "contains p (drop k s) \<Longrightarrow> p \<noteq> [] \<Longrightarrow> contains p s"
proof (induction s arbitrary: k)
  case Nil
  then show ?case by simp
next
  case (Cons c cs)
  then show ?case by (cases k) auto
qed

lemma replace_from_clean:
  assumes "old \<noteq> []" "new \<noteq> []" "hd new \<notin> set old" "hd old \<notin> set new"
  shows "\<not> contains old (replace_from old new s)"
proof (induction "length s" arbitrary: s rule: less_induct)
  case less
  show ?case
  proof (cases s)
    case Nil
    with assms(1) show ?thesis by simp
  next
    case (Cons c cs)
    show ?thesis
    proof (cases "prefix old (c # cs)")
      case True
      have "length (drop (length old) s) < length s"
        using assms(1) Cons by simp
      then have "\<not> contains old (replace_from old new (drop (length old) s))"
        by (rule less)
      with True Cons assms show ?thesis
        by (simp add: contains_skip)
    next
      case False
      have "\<not> contains old (replace_from old new cs)"
        using less [of cs] Cons by simp
      moreover have "\<not> prefix old (replace_from old new s)"
        using assms(1-3) by (rule replace_from_not_prefix)
      ultimately show ?thesis
        using False Cons by simp
    qed
  qed
qed

lemma replace_from_keeps_out:
  assumes "old \<noteq> []" "new \<noteq> []" "p \<noteq> []" "hd new \<notin> set p" "hd p \<notin> set new"
    "\<not> contains p s"
  shows "\<not> contains p (replace_from old new s)"
  using assms(6)
proof (induction "length s" arbitrary: s rule: less_induct)
  case less
  show ?case
  proof (cases s)
    case Nil
    with assms(3) show ?thesis by simp
  next
    case (Cons c cs)
    have np: "\<not> prefix p (replace_from old new s)"
      using replace_from_prefix [OF assms(2,4), of old s] less.prems Cons by auto
    show ?thesis
    proof (cases "prefix old (c # cs)")
      case True
      have "length (drop (length old) s) < length s"
        using assms(1) Cons by simp
      moreover have "\<not> contains p (drop (length old) s)"
        using less.prems contains_drop [OF _ assms(3)] by blast
      ultimately have "\<not> contains p (replace_from old new (drop (length old) s))"
        by (rule less.hyps)
      with True Cons assms show ?thesis
        by (simp add: contains_skip)
    next
      case False
      have "\<not> contains p (replace_from old new cs)"
        using less.hyps [of cs] less.prems Cons by simp
      with np False Cons show ?thesis by simp
    qed
  qed
qed

lemma terms_pass_clean:
  "\<not> contains TAISHOGUN (terms_pass t) \<and> \<not> contains FREEDOM_FROM (terms_pass t)"
proof -
  have a: "\<not> contains TAISHOGUN (replace_from TAISHOGUN CONTROLGUN t)"
    by (rule replace_from_clean) (simp_all add: lit_defs)
  have "\<not> contains TAISHOGUN (replace_from FREEDOM_FROM KAIHI (replace_from TAISHOGUN CONTROLGUN t))"
    by (rule replace_from_keeps_out [OF _ _ _ _ _ a]) (simp_all add: lit_defs)
  moreover have "\<not> contains FREEDOM_FROM
      (replace_from FREEDOM_FROM KAIHI (replace_from TAISHOGUN CONTROLGUN t))"
    by (rule replace_from_clean) (simp_all add: lit_defs)
  moreover have "terms_pass t =
      replace_from FREEDOM_FROM KAIHI (replace_from TAISHOGUN CONTROLGUN t)"
    by (simp add: terms_pass_def py_replace_def lit_defs)
  ultimately show ?thesis by simp
qed

lemma terms_pass_idem: "terms_pass (terms_pass t) = terms_pass t"
  using terms_pass_clean [of t] by (simp add: terms_pass_no_match)

text \<open>An occurrence whose first character does not come back later in it cannot straddle.\<close>

lemma no_straddle:
  assumes "p \<noteq> []" "hd p \<notin> set (tl p)" "prefix p (xs @ p @ ys)"
  shows "xs = [] \<or> prefix p xs"
proof (cases "length p \<le> length xs")
  case True
  with assms(3) show ?thesis
    by (metis prefix_length_prefix prefixI)
next
  case False
  show ?thesis
  proof (cases "xs = []")
    case True
    then show ?thesis by simp
  next
    case ne: False
    from assms(3) obtain zs where zs: "xs @ p @ ys = p @ zs"
      by (auto simp: prefix_def)
    let ?k = "length xs"
    have k: "0 < ?k" "?k < length p" using ne False by auto
    have "(xs @ p @ ys) ! ?k = hd p"
      using assms(1) by (simp add: nth_append hd_conv_nth)
    moreover have "(p @ zs) ! ?k = p ! ?k"
      using k by (simp add: nth_append)
    ultimately have "p ! ?k = hd p" using zs by simp
    moreover have "p ! ?k = tl p ! (?k - 1)"
      using k assms(1) by (cases p) (auto simp: nth_Cons')
    moreover have "tl p ! (?k - 1) \<in> set (tl p)"
    proof (rule nth_mem)
      show "?k - 1 < length (tl p)" using k by (cases xs) auto
    qed
    ultimately show ?thesis using assms(2) by simp
  qed
qed

lemma replace_from_occurrence:
  assumes "old \<noteq> []" "hd old \<notin> set (tl old)"
  shows "replace_from old new (pre @ old @ post) =
     replace_from old new pre @ new @ replace_from old new post"
proof (induction "length pre" arbitrary: pre rule: less_induct)
  case less
  show ?case
  proof (cases pre)
    case Nil
    then show ?thesis
      using assms(1) by (cases old) simp_all
  next
    case (Cons c cs)
    show ?thesis
    proof (cases "prefix old (pre @ old @ post)")
      case True
      then have p: "prefix old pre"
        using no_straddle [OF assms True] Cons by simp
      then have "pre @ old @ post = old @ drop (length old) pre @ old @ post"
        by (auto simp: prefix_def)
      then have d: "drop (length old) (pre @ old @ post) = drop (length old) pre @ old @ post"
        by (metis append_eq_conv_conj)
      have "length (drop (length old) pre) < length pre"
        using assms(1) Cons by simp
      then have "replace_from old new (drop (length old) pre @ old @ post) =
          replace_from old new (drop (length old) pre) @ new @ replace_from old new post"
        by (rule less)
      with True p d Cons assms(1) show ?thesis by simp
    next
      case False
      then have "\<not> prefix old pre"
        by (auto simp: prefix_def)
      moreover have "replace_from old new (cs @ old @ post) =
          replace_from old new cs @ new @ replace_from old new post"
        using less [of cs] Cons by simp
      ultimately show ?thesis using False Cons by simp
    qed
  qed
qed

section \<open>C1: the p-value notation\<close>

lemma postprocess_P_spaces:
  "postprocess [0x50, 0x20, 0x3D, 0x20, 0x30, 0x2E, 0x30, 0x33] = Inr [0x70, 0x3D, 0x30, 0x2E, 0x30, 0x33]"
  by (simp add: pass_defs re_defs lit_defs char_defs)

lemma postprocess_P_fullwidth_equals:
  "postprocess [0x50, 0xFF1D, 0x30, 0x2E, 0x30, 0x33] = Inr [0x50, 0xFF1D, 0x30, 0x2E, 0x30, 0x33]"
  by (simp add: pass_defs re_defs lit_defs char_defs)

lemma postprocess_small_p_spaces:
  "postprocess [0x70, 0x20, 0x3D, 0x20, 0x30, 0x2E, 0x30, 0x33] =
     Inr [0x70, 0x20, 0x3D, 0x20, 0x30, 0x2E, 0x30, 0x33]"
  by (simp add: pass_defs re_defs lit_defs char_defs)

text \<open>
  C1, as stated, fails: the text \<open>P\<close> U+FF1D \<open>0.03\<close>, with the fullwidth equals sign,
  does not normalize to \<open>p=0.03\<close>; the pattern of line 224 has the ASCII equals sign only.
\<close>

theorem pvalue_fullwidth_equals_counterexample:
  "postprocess [0x50, 0xFF1D, 0x30, 0x2E, 0x30, 0x33] \<noteq> Inr [0x70, 0x3D, 0x30, 0x2E, 0x30, 0x33]"
  by (simp add: postprocess_P_fullwidth_equals)

text \<open>
  C1, amended. Wherever one of the three letters of the class of line 224 (\<open>P\<close>, fullwidth
  small p U+FF50, fullwidth capital P U+FF30) is followed by optional whitespace, an ASCII
  equals sign and optional whitespace, the pass writes \<open>p=\<close> for all of it and treats the
  text before and after on its own. The normalizer turns \<open>P = 0.03\<close> into \<open>p=0.03\<close>; it
  returns \<open>P\<close> U+FF1D \<open>0.03\<close> and \<open>p = 0.03\<close> (ASCII small p) unchanged.
\<close>

theorem pvalue_rewrite_ascii_equals:
  "(is_pletter c \<and> list_all is_space w1 \<and> list_all is_space w2 \<and> (r = [] \<or> \<not> is_space (hd r)) \<longrightarrow>
      pvalue_pass (pre @ c # w1 @ EQUALS # w2 @ r) = pvalue_pass pre @ P_EQ @ pvalue_pass r) \<and>
   postprocess [0x50, 0x20, 0x3D, 0x20, 0x30, 0x2E, 0x30, 0x33] =
     Inr [0x70, 0x3D, 0x30, 0x2E, 0x30, 0x33] \<and>
   postprocess [0x50, 0xFF1D, 0x30, 0x2E, 0x30, 0x33] = Inr [0x50, 0xFF1D, 0x30, 0x2E, 0x30, 0x33] \<and>
   postprocess [0x70, 0x20, 0x3D, 0x20, 0x30, 0x2E, 0x30, 0x33] =
     Inr [0x70, 0x20, 0x3D, 0x20, 0x30, 0x2E, 0x30, 0x33]"
  using pvalue_rewrite [of c w1 w2 r pre] postprocess_P_spaces postprocess_P_fullwidth_equals
    postprocess_small_p_spaces
  by blast

theorem pvalue_rewrite_ascii_equals_witness:
  "is_pletter 0xFF30 \<and> list_all is_space [0x20, 0x3000] \<and> list_all is_space [0x9] \<and>
   \<not> is_space (hd [0x30, 0x2E, 0x31]) \<and>
   pvalue_pass ([0x61, 0x20] @ 0xFF30 # [0x20, 0x3000] @ EQUALS # [0x9] @ [0x30, 0x2E, 0x31]) =
     [0x61, 0x20, 0x70, 0x3D, 0x30, 0x2E, 0x31]"
proof -
  have h: "is_pletter 0xFF30" "list_all is_space [0x20, 0x3000]" "list_all is_space [0x9]"
    "\<not> is_space (hd [0x30, 0x2E, 0x31])"
    by (simp_all add: char_defs)
  have e: "pvalue_pass [0x61, 0x20] = [0x61, 0x20]" "pvalue_pass [0x30, 0x2E, 0x31] = [0x30, 0x2E, 0x31]"
    by (simp_all add: pvalue_pass_Cons pvalue_pass_Nil char_defs)
  show ?thesis
    using h e pvalue_rewrite_ascii_equals [of "0xFF30" "[0x20, 0x3000]" "[0x9]" "[0x30, 0x2E, 0x31]" "[0x61, 0x20]"]
    by (simp add: P_EQ_def)
qed

section \<open>C2: idempotence\<close>

lemma postprocess_a_nl_nl: "postprocess [0x61, NL, NL] = Inr [0x61, NL]"
  by (simp add: pass_defs re_defs lit_defs char_defs)

lemma postprocess_a_nl: "postprocess [0x61, NL] = Inr [0x61]"
  by (simp add: pass_defs re_defs lit_defs char_defs)

lemma title_pass_a_nl_nl: "title_pass [0x61, NL, NL] = Inr [0x61, NL]"
  by (simp add: pass_defs re_defs lit_defs char_defs)

lemma title_pass_a_nl: "title_pass [0x61, NL] = Inr [0x61]"
  by (simp add: pass_defs re_defs lit_defs char_defs)

text \<open>
  C2, as stated, fails: the normalizer turns \<open>a\n\n\<close> into \<open>a\n\<close> and, applied again,
  \<open>a\n\<close> into \<open>a\<close>; the title pass alone does the same, for \<open>splitlines\<close> drops one
  final line boundary at each application.
\<close>

theorem postprocess_twice_counterexample:
  "postprocess [0x61, NL, NL] = Inr [0x61, NL] \<and> postprocess [0x61, NL] \<noteq> Inr [0x61, NL] \<and>
   title_pass [0x61, NL, NL] = Inr [0x61, NL] \<and> title_pass [0x61, NL] \<noteq> Inr [0x61, NL]"
  by (simp add: postprocess_a_nl_nl postprocess_a_nl title_pass_a_nl_nl title_pass_a_nl)

text \<open>
  C2, amended. The p-value pass, the month pass and the terminology pass are each
  idempotent: applied twice, each gives what it gives applied once. (The title pass and
  the whole normalizer are not.)
\<close>

theorem passes_idempotent:
  "pvalue_pass (pvalue_pass t) = pvalue_pass t \<and>
   month_pass (month_pass t) = month_pass t \<and>
   terms_pass (terms_pass t) = terms_pass t"
  by (simp add: pvalue_pass_idem month_pass_idem terms_pass_idem)

theorem passes_idempotent_witness:
  "pvalue_pass (pvalue_pass [0x50, 0x20, 0x3D, 0x34, GETSU]) = [0x70, 0x3D, 0x34, GETSU] \<and>
   month_pass (month_pass [0x70, 0x3D, 0x34, GETSU]) = [0x70, 0x3D, 0x34, SMALL_KE, GETSU] \<and>
   terms_pass (terms_pass [0x5BFE, 0x7167, 0x7FA4]) = CONTROLGUN"
proof -
  have "pvalue_pass [0x50, 0x20, 0x3D, 0x34, GETSU] = [0x70, 0x3D, 0x34, GETSU]"
    by (simp add: pvalue_pass_Cons pvalue_pass_Nil after_equals_def lit_defs char_defs)
  moreover have "month_pass [0x70, 0x3D, 0x34, GETSU] = [0x70, 0x3D, 0x34, SMALL_KE, GETSU]"
    by (simp add: month_pass_def month_from_Cons after_digit_def char_defs)
  moreover have "terms_pass [0x5BFE, 0x7167, 0x7FA4] = CONTROLGUN"
    by (simp add: terms_pass_def py_replace_def lit_defs)
  ultimately show ?thesis
    using passes_idempotent [of "[0x50, 0x20, 0x3D, 0x34, GETSU]"]
      passes_idempotent [of "[0x70, 0x3D, 0x34, GETSU]"]
      passes_idempotent [of "[0x5BFE, 0x7167, 0x7FA4]"]
    by simp
qed

section \<open>C9: the terminology\<close>

lemma postprocess_joined_term:
  "postprocess [0x5BFE, 0x30B9, 0x30E9, 0x30A4, 0x30C9, 0x306B, 0x63D0, 0x793A, 0x3002, 0x7167, 0x7FA4] =
     Inr [0x5BFE, 0x7167, 0x7FA4]"
  by (simp add: pass_defs re_defs lit_defs char_defs)

text \<open>
  C9, as stated, fails for the output of the normalizer: the deletion of line 243 comes
  after the substitution and can join the pieces of a disallowed term. The input is
  U+5BFE, the deleted sentence, U+7167 U+7FA4; the output is the disallowed term itself.
\<close>

theorem terms_joined_counterexample:
  "postprocess [0x5BFE, 0x30B9, 0x30E9, 0x30A4, 0x30C9, 0x306B, 0x63D0, 0x793A, 0x3002, 0x7167, 0x7FA4] =
     Inr [0x5BFE, 0x7167, 0x7FA4] \<and>
   contains TAISHOGUN [0x5BFE, 0x7167, 0x7FA4]"
  by (simp add: postprocess_joined_term TAISHOGUN_def)

text \<open>
  C9, amended. In the text that reaches line 241 every occurrence of the disallowed
  control-group term is replaced by the canonical term, and in the text that reaches line
  242 every occurrence of \<open>Freedom from\<close> by the gloss; the text that leaves line 242
  contains neither. The match is case-sensitive: \<open>freedom from\<close> is left as it is. (The
  deletion of line 243 comes afterwards, so this is a property of the text before it.)
\<close>

theorem terms_substitution_global:
  "py_replace (pre @ TAISHOGUN @ post) TAISHOGUN CONTROLGUN =
     py_replace pre TAISHOGUN CONTROLGUN @ CONTROLGUN @ py_replace post TAISHOGUN CONTROLGUN \<and>
   py_replace (pre @ FREEDOM_FROM @ post) FREEDOM_FROM KAIHI =
     py_replace pre FREEDOM_FROM KAIHI @ KAIHI @ py_replace post FREEDOM_FROM KAIHI \<and>
   \<not> contains TAISHOGUN (terms_pass t) \<and> \<not> contains FREEDOM_FROM (terms_pass t) \<and>
   terms_pass [0x66, 0x72, 0x65, 0x65, 0x64, 0x6F, 0x6D, 0x20, 0x66, 0x72, 0x6F, 0x6D] =
     [0x66, 0x72, 0x65, 0x65, 0x64, 0x6F, 0x6D, 0x20, 0x66, 0x72, 0x6F, 0x6D]"
proof -
  have a: "py_replace (pre @ TAISHOGUN @ post) TAISHOGUN CONTROLGUN =
     py_replace pre TAISHOGUN CONTROLGUN @ CONTROLGUN @ py_replace post TAISHOGUN CONTROLGUN"
    using replace_from_occurrence [of TAISHOGUN CONTROLGUN pre post]
    by (simp add: py_replace_def TAISHOGUN_def)
  have b: "py_replace (pre @ FREEDOM_FROM @ post) FREEDOM_FROM KAIHI =
     py_replace pre FREEDOM_FROM KAIHI @ KAIHI @ py_replace post FREEDOM_FROM KAIHI"
    using replace_from_occurrence [of FREEDOM_FROM KAIHI pre post]
    by (simp add: py_replace_def FREEDOM_FROM_def)
  have c: "terms_pass [0x66, 0x72, 0x65, 0x65, 0x64, 0x6F, 0x6D, 0x20, 0x66, 0x72, 0x6F, 0x6D] =
     [0x66, 0x72, 0x65, 0x65, 0x64, 0x6F, 0x6D, 0x20, 0x66, 0x72, 0x6F, 0x6D]"
    by (simp add: terms_pass_def py_replace_def lit_defs)
  show ?thesis
    using a b c terms_pass_clean [of t] by blast
qed

theorem terms_substitution_global_witness:
  "terms_pass ([0x41] @ TAISHOGUN @ [0x42] @ FREEDOM_FROM) = [0x41] @ CONTROLGUN @ [0x42] @ KAIHI \<and>
   \<not> contains TAISHOGUN ([0x41] @ CONTROLGUN @ [0x42] @ KAIHI) \<and>
   \<not> contains FREEDOM_FROM ([0x41] @ CONTROLGUN @ [0x42] @ KAIHI)"
proof -
  have e: "terms_pass ([0x41] @ TAISHOGUN @ [0x42] @ FREEDOM_FROM) = [0x41] @ CONTROLGUN @ [0x42] @ KAIHI"
    by (simp add: terms_pass_def py_replace_def lit_defs)
  show ?thesis
    using e terms_substitution_global [of "[]" "[]" "[0x41] @ TAISHOGUN @ [0x42] @ FREEDOM_FROM"]
    by simp
qed

section \<open>A match is a part of the text\<close>

lemma re_lit_suffix:
  assumes "\<And>s r. k s = Some r \<Longrightarrow> suffix r s" "re_lit p k s = Some r"
  shows "suffix r s \<and> length r + length p \<le> length s"
proof -
  from assms(2) have p: "prefix p s" and k: "k (drop (length p) s) = Some r"
    by (auto simp: re_lit_def split: if_splits)
  from k have "suffix r (drop (length p) s)" by (rule assms(1))
  moreover from p have "length p \<le> length s" by (rule prefix_length_le)
  ultimately show ?thesis
    using suffix_drop [of "length p" s] suffix_length_le [of r "drop (length p) s"]
    by (auto intro: suffix_order.trans)
qed

lemma re_set_suffix:
  assumes "\<And>s r. k s = Some r \<Longrightarrow> suffix r s" "re_set P k s = Some r"
  shows "suffix r (tl s) \<and> s \<noteq> []"
  using assms by (cases s) (auto simp: re_set_def split: if_splits)

lemma re_star_suffix:
  assumes "\<And>s r. k s = Some r \<Longrightarrow> suffix r s"
  shows "re_star P k s = Some r \<Longrightarrow> suffix r s"
proof (induction s)
  case Nil
  then show ?case using assms [of "[]" r] by simp
next
  case (Cons c cs)
  then show ?case
    using assms [of "c # cs" r]
    by (auto simp: suffix_Cons split: if_splits option.splits)
qed

lemma re_lazy_suffix:
  assumes "\<And>s r. k s = Some r \<Longrightarrow> suffix r s"
  shows "re_lazy P k s = Some r \<Longrightarrow> suffix r s"
proof (induction s)
  case Nil
  then show ?case using assms [of "[]" r] by simp
next
  case (Cons c cs)
  then show ?case
    using assms [of "c # cs" r]
    by (auto simp: suffix_Cons split: if_splits option.splits)
qed

lemma re_end_suffix:
  assumes "\<And>s r. k s = Some r \<Longrightarrow> suffix r s"
  shows "re_end k s = Some r \<Longrightarrow> suffix r s"
  using assms by (auto simp: re_end_def split: if_splits)

lemma Some_suffix: "Some s = Some r \<Longrightarrow> suffix r s"
  by simp

lemma pat_pvalue_suffix: "pat_pvalue prev s = Some r \<Longrightarrow> suffix r (tl s) \<and> s \<noteq> []"
  unfolding pat_pvalue_def
  by (erule re_set_suffix [rotated], erule re_star_suffix [rotated],
      drule re_lit_suffix [rotated], erule re_star_suffix [rotated]) auto

lemma pat_month_suffix: "pat_month prev s = Some r \<Longrightarrow> suffix r (tl s) \<and> s \<noteq> []"
  by (auto simp: pat_month_eq split: list.splits if_splits)

lemma pat_open_suffix: "pat_open prev s = Some r \<Longrightarrow> suffix r (tl s) \<and> s \<noteq> []"
  unfolding pat_open_def re_plus_def
  by (auto split: if_splits elim!: re_set_suffix [rotated] re_star_suffix [rotated])

lemma pat_close_suffix: "pat_close prev s = Some r \<Longrightarrow> suffix r (tl s) \<and> s \<noteq> []"
  unfolding pat_close_def re_plus_def
  by (erule re_set_suffix [rotated], erule re_star_suffix [rotated],
      erule re_end_suffix [rotated]) auto

lemma slide_tail_suffix:
  "re_lazy in_sentence (re_lit [MARU] Some) s = Some r \<Longrightarrow> suffix r s"
  by (erule re_lazy_suffix [rotated], drule re_lit_suffix [rotated]) auto

lemma slide_verb_suffix:
  "re_alt (re_lit TEIJI) (re_lit HYOJI) (re_lazy in_sentence (re_lit [MARU] Some)) s = Some r
     \<Longrightarrow> suffix r s"
  unfolding re_alt_def
  by (auto split: option.splits dest!: re_lit_suffix [rotated] dest: slide_tail_suffix)

lemma pat_slide_suffix:
  assumes "pat_slide prev s = Some r"
  shows "suffix r s \<and> length r + 5 \<le> length s"
proof -
  have "suffix r s \<and> length r + length SLIDE_NI \<le> length s"
  proof (rule re_lit_suffix)
    show "re_lit SLIDE_NI (re_lazy in_sentence (re_alt (re_lit TEIJI) (re_lit HYOJI)
        (re_lazy in_sentence (re_lit [MARU] Some)))) s = Some r"
      using assms by (simp add: pat_slide_def)
  next
    fix s' r'
    assume "re_lazy in_sentence (re_alt (re_lit TEIJI) (re_lit HYOJI)
        (re_lazy in_sentence (re_lit [MARU] Some))) s' = Some r'"
    then show "suffix r' s'"
      by (rule re_lazy_suffix [rotated]) (rule slide_verb_suffix)
  qed
  then show ?thesis by (simp add: SLIDE_NI_def)
qed

section \<open>The sentence deletion\<close>












section \<open>Counting lines\<close>

lemma nlines_Cons:
  "nlines (c # cs) =
     (if is_linebreak c then Suc (nlines (if c = CR \<and> take 1 cs = [NL] then drop 1 cs else cs))
      else max 1 (nlines cs))"
  by (simp add: splitlines_Cons split: list.splits)

lemma linebreak_NL: "is_linebreak NL" and linebreak_CR: "is_linebreak CR"
  by (simp_all add: is_linebreak_def)

lemma nlines_Cons_ge: "nlines cs \<le> nlines (c # cs)"
proof (cases "is_linebreak c \<and> c = CR \<and> take 1 cs = [NL]")
  case True
  then obtain cs' where "cs = NL # cs'"
    by (cases cs) auto
  with True show ?thesis
    by (simp add: nlines_Cons linebreak_NL)
next
  case False
  then show ?thesis
    by (auto simp: nlines_Cons)
qed

lemma nlines_Cons_le: "nlines (c # cs) \<le> Suc (nlines cs)"
proof (cases "is_linebreak c \<and> c = CR \<and> take 1 cs = [NL]")
  case True
  then obtain cs' where "cs = NL # cs'"
    by (cases cs) auto
  with True show ?thesis
    by (simp add: nlines_Cons linebreak_NL)
next
  case False
  then show ?thesis
    by (auto simp: nlines_Cons)
qed

lemma nlines_suffix: "suffix r s \<Longrightarrow> nlines r \<le> nlines s"
proof (induction s)
  case Nil
  then show ?case by simp
next
  case (Cons c s)
  then show ?case
    using nlines_Cons_ge [of s c] by (auto simp: suffix_Cons)
qed

lemma nlines_no_break_append: "no_break w \<Longrightarrow> nlines (w @ x) \<le> max 1 (nlines x)"
  by (induction w) (auto simp: nlines_Cons)

lemma re_sub_nlines:
  assumes pat: "\<And>p s r. pat p s = Some r \<Longrightarrow> suffix r (tl s) \<and> s \<noteq> [] \<and> \<not> is_linebreak (hd s)"
    and repl: "no_break repl"
  shows "nlines (re_sub pat repl prev s) \<le> nlines s"
proof (induction "length s" arbitrary: s prev rule: less_induct)
  case less
  show ?case
  proof (cases s)
    case Nil
    then show ?thesis by simp
  next
    case (Cons c cs)
    show ?thesis
    proof (cases "pat prev (c # cs)")
      case None
      let ?Y = "re_sub pat repl (Some c) cs"
      have Y: "nlines ?Y \<le> nlines cs"
        using less [of cs] Cons by simp
      have out: "re_sub pat repl prev s = c # ?Y"
        using None Cons by (simp add: re_sub.simps(2))
      show ?thesis
      proof (cases "is_linebreak c")
        case False
        with Y out Cons show ?thesis
          by (simp add: nlines_Cons)
      next
        case True
        show ?thesis
        proof (cases "c = CR \<and> take 1 cs = [NL]")
          case crlf: True
          then obtain cs' where cs: "cs = NL # cs'"
            by (cases cs) auto
          have "pat (Some c) (NL # cs') = None"
          proof (cases "pat (Some c) (NL # cs')")
            case (Some r)
            then show ?thesis
              using pat [of "Some c" "NL # cs'" r] linebreak_NL by simp
          qed simp
          then have Y': "?Y = NL # re_sub pat repl (Some NL) cs'"
            using cs by (simp add: re_sub.simps(2))
          have "nlines (re_sub pat repl (Some NL) cs') \<le> nlines cs'"
            using less [of cs'] Cons cs by simp
          with out Y' crlf cs Cons True show ?thesis
            by (simp add: nlines_Cons)
        next
          case False
          have "nlines (c # ?Y) \<le> Suc (nlines ?Y)"
            by (rule nlines_Cons_le)
          moreover have "nlines (c # cs) = Suc (nlines cs)"
            using False True by (auto simp: nlines_Cons)
          ultimately have "nlines (c # ?Y) \<le> nlines (c # cs)"
            using Y by linarith
          with out Cons show ?thesis by simp
        qed
      qed
    next
      case (Some r)
      then have r: "suffix r cs" and c: "\<not> is_linebreak c"
        using pat [of prev "c # cs" r] by auto
      then have len: "length r \<le> length cs"
        by (auto dest: suffix_length_le)
      let ?Y = "re_sub pat repl (Some ((c # cs) ! (length cs - length r))) r"
      have out: "re_sub pat repl prev s = repl @ ?Y"
        using Some len Cons by (simp add: re_sub.simps(2))
      have "nlines ?Y \<le> nlines r"
        using less [of r] len Cons by simp
      moreover have "nlines r \<le> nlines cs"
        using r by (rule nlines_suffix)
      moreover have "nlines (repl @ ?Y) \<le> max 1 (nlines ?Y)"
        using repl by (rule nlines_no_break_append)
      ultimately show ?thesis
        using out c Cons by (simp add: nlines_Cons)
    qed
  qed
qed

lemma re_sub_set:
  assumes "\<And>p s r. pat p s = Some r \<Longrightarrow> suffix r s"
  shows "set (re_sub pat repl prev s) \<subseteq> set s \<union> set repl"
proof (induction "length s" arbitrary: s prev rule: less_induct)
  case less
  show ?case
  proof (cases s)
    case Nil
    then show ?thesis by simp
  next
    case (Cons c cs)
    have tl: "set (re_sub pat repl (Some c) cs) \<subseteq> set cs \<union> set repl"
      using less [of cs] Cons by simp
    show ?thesis
    proof (cases "pat prev (c # cs)")
      case None
      with tl Cons show ?thesis
        by (auto simp: re_sub.simps(2))
    next
      case (Some r)
      then have "suffix r (c # cs)"
        by (rule assms)
      then have "set r \<subseteq> set (c # cs)"
        by (rule set_mono_suffix)
      then have "set r \<subseteq> set s"
        using Cons by simp
      moreover have "length r \<le> length cs \<Longrightarrow>
          set (re_sub pat repl (Some ((c # cs) ! (length cs - length r))) r) \<subseteq> set r \<union> set repl"
        using less [of r] Cons by simp
      ultimately show ?thesis
        using Some tl Cons by (auto simp: re_sub.simps(2))
    qed
  qed
qed

lemma replace_from_re_sub:
  "old \<noteq> [] \<Longrightarrow> replace_from old new s = re_sub (\<lambda>p. re_lit old Some) new prev s"
proof (induction "length s" arbitrary: s prev rule: less_induct)
  case less
  show ?case
  proof (cases s)
    case Nil
    then show ?thesis by simp
  next
    case (Cons c cs)
    show ?thesis
    proof (cases "prefix old (c # cs)")
      case True
      have "length (drop (length old) (c # cs)) < length s"
        using less.prems Cons by simp
      then have "replace_from old new (drop (length old) (c # cs)) =
          re_sub (\<lambda>p. re_lit old Some) new
            (Some ((c # cs) ! (length cs - length (drop (length old) (c # cs)))))
            (drop (length old) (c # cs))"
        using less.prems by (rule less.hyps)
      moreover have "length (drop (length old) (c # cs)) \<le> length cs"
        using less.prems by (cases old) auto
      ultimately show ?thesis
        using True less.prems Cons by (simp add: re_sub.simps(2) re_lit_def)
    next
      case False
      have "replace_from old new cs = re_sub (\<lambda>p. re_lit old Some) new (Some c) cs"
        using less.hyps [of cs] less.prems Cons by simp
      with False Cons show ?thesis
        by (simp add: re_sub.simps(2) re_lit_def)
    qed
  qed
qed

lemma re_lit_Some_suffix:
  assumes "old \<noteq> []" "re_lit old Some s = Some r"
  shows "suffix r (tl s) \<and> s \<noteq> [] \<and> hd s = hd old"
proof -
  from assms(2) have p: "prefix old s" and r: "r = drop (length old) s"
    by (auto simp: re_lit_def split: if_splits)
  from p assms(1) obtain c cs where s: "s = c # cs" and c: "c = hd old"
    by (cases s; cases old) auto
  have "r = drop (length old - 1) cs"
    using r s assms(1) by (cases old) auto
  then have "suffix r cs" by (simp add: suffix_drop)
  with s c show ?thesis by simp
qed

section \<open>Lines through the passes\<close>

lemma suffix_tl_imp: "suffix r (tl s) \<Longrightarrow> suffix r s"
  by (cases s) (auto simp: suffix_Cons)

lemma pletter_no_break: "is_pletter c \<Longrightarrow> \<not> is_linebreak c"
  by (auto simp: is_pletter_def is_linebreak_def)

lemma pat_pvalue_start:
  assumes "pat_pvalue p s = Some r"
  shows "suffix r (tl s) \<and> s \<noteq> [] \<and> \<not> is_linebreak (hd s)"
proof -
  from assms have "is_pletter (hd s)"
    by (cases s) (auto simp: pat_pvalue_eq split: if_splits)
  then show ?thesis
    using pat_pvalue_suffix [OF assms] pletter_no_break by simp
qed

lemma pat_month_start:
  assumes "pat_month p s = Some r"
  shows "suffix r (tl s) \<and> s \<noteq> [] \<and> \<not> is_linebreak (hd s)"
proof -
  from assms have "hd s = GETSU"
    by (cases s) (auto simp: pat_month_eq split: if_splits)
  then show ?thesis
    using pat_month_suffix [OF assms] by (simp add: is_linebreak_def)
qed

lemma pat_slide_start:
  assumes "pat_slide p s = Some r"
  shows "suffix r (tl s) \<and> s \<noteq> [] \<and> \<not> is_linebreak (hd s)"
proof -
  from assms have "prefix SLIDE_NI s"
    by (auto simp: pat_slide_def re_lit_def split: if_splits)
  then obtain cs where s: "s = 0x30B9 # cs"
    by (cases s) (auto simp: SLIDE_NI_def)
  from pat_slide_suffix [OF assms] s have "suffix r cs"
    by (auto simp: suffix_Cons)
  with s show ?thesis by (simp add: is_linebreak_def)
qed

lemma pvalue_pass_nlines: "nlines (pvalue_pass t) \<le> nlines t"
  unfolding pvalue_pass_def
proof (rule re_sub_nlines)
  show "no_break P_EQ" by (simp add: P_EQ_def is_linebreak_def)
qed (rule pat_pvalue_start)

lemma month_pass_nlines: "nlines (month_pass t) \<le> nlines t"
  unfolding month_pass_def
proof (rule re_sub_nlines)
  show "no_break KAGETSU" by (simp add: KAGETSU_def is_linebreak_def)
qed (rule pat_month_start)

lemma slide_pass_nlines: "nlines (slide_pass t) \<le> nlines t"
  unfolding slide_pass_def
proof (rule re_sub_nlines)
  show "no_break []" by simp
qed (rule pat_slide_start)

lemma slide_pass_set: "set (slide_pass t) \<subseteq> set t"
proof -
  have "set (re_sub pat_slide [] None t) \<subseteq> set t \<union> set []"
    by (rule re_sub_set) (simp add: pat_slide_suffix)
  then show ?thesis by (simp add: slide_pass_def)
qed

lemma replace_from_nlines:
  assumes "old \<noteq> []" "\<not> is_linebreak (hd old)" "no_break new"
  shows "nlines (replace_from old new s) \<le> nlines s"
proof -
  have "nlines (re_sub (\<lambda>p. re_lit old Some) new None s) \<le> nlines s"
  proof (rule re_sub_nlines)
    fix p :: "codepoint option" and s r
    assume "re_lit old Some s = Some r"
    then show "suffix r (tl s) \<and> s \<noteq> [] \<and> \<not> is_linebreak (hd s)"
      using re_lit_Some_suffix [OF assms(1), of s r] assms(2) by simp
  qed (rule assms(3))
  then show ?thesis
    using replace_from_re_sub [OF assms(1), of new s None] by simp
qed

lemma replace_from_set:
  assumes "old \<noteq> []"
  shows "set (replace_from old new s) \<subseteq> set s \<union> set new"
proof -
  have "set (re_sub (\<lambda>p. re_lit old Some) new None s) \<subseteq> set s \<union> set new"
  proof (rule re_sub_set)
    fix p :: "codepoint option" and s r
    assume "re_lit old Some s = Some r"
    then show "suffix r s"
      using re_lit_Some_suffix [OF assms, of s r] by (simp add: suffix_tl_imp)
  qed
  then show ?thesis
    using replace_from_re_sub [OF assms, of new s None] by simp
qed

lemma terms_pass_replace_from:
  "terms_pass t = replace_from FREEDOM_FROM KAIHI (replace_from TAISHOGUN CONTROLGUN t)"
  by (simp add: terms_pass_def py_replace_def lit_defs)

lemma terms_pass_nlines: "nlines (terms_pass t) \<le> nlines t"
proof -
  have "nlines (replace_from TAISHOGUN CONTROLGUN t) \<le> nlines t"
    by (rule replace_from_nlines) (simp_all add: lit_defs is_linebreak_def)
  moreover have "nlines (replace_from FREEDOM_FROM KAIHI (replace_from TAISHOGUN CONTROLGUN t))
      \<le> nlines (replace_from TAISHOGUN CONTROLGUN t)"
    by (rule replace_from_nlines) (simp_all add: lit_defs is_linebreak_def)
  ultimately show ?thesis
    by (simp add: terms_pass_replace_from)
qed

lemma terms_pass_set: "set (terms_pass t) \<subseteq> set t \<union> set CONTROLGUN \<union> set KAIHI"
proof -
  have "set (replace_from TAISHOGUN CONTROLGUN t) \<subseteq> set t \<union> set CONTROLGUN"
    by (rule replace_from_set) (simp add: lit_defs)
  moreover have "set (replace_from FREEDOM_FROM KAIHI (replace_from TAISHOGUN CONTROLGUN t))
      \<subseteq> set (replace_from TAISHOGUN CONTROLGUN t) \<union> set KAIHI"
    by (rule replace_from_set) (simp add: lit_defs)
  ultimately show ?thesis
    unfolding terms_pass_replace_from by blast
qed

lemma splitlines_no_break: "list_all no_break (splitlines t)"
proof (induction "length t" arbitrary: t rule: less_induct)
  case less
  show ?case
  proof (cases t)
    case Nil
    then show ?thesis by simp
  next
    case (Cons c cs)
    have cs: "list_all no_break (splitlines cs)"
      using less [of cs] Cons by simp
    have d: "list_all no_break (splitlines (drop 1 cs))"
      using less [of "drop 1 cs"] Cons by simp
    show ?thesis
      using cs d Cons by (auto simp: splitlines_Cons split: list.splits)
  qed
qed

lemma strip_set: "set (strip l) \<subseteq> set l"
  unfolding strip_def
  using set_dropWhileD [of _ is_space "rev (dropWhile is_space l)"]
    set_dropWhileD [of _ is_space l]
  by auto

lemma strip_quotes_set: "set (strip_quotes l) \<subseteq> set l"
proof -
  have a: "set (re_sub pat_open [] None (strip l)) \<subseteq> set (strip l) \<union> set []"
    by (rule re_sub_set) (auto dest: pat_open_suffix intro: suffix_tl_imp)
  have "set (re_sub pat_close [] None (re_sub pat_open [] None (strip l)))
      \<subseteq> set (re_sub pat_open [] None (strip l)) \<union> set []"
    by (rule re_sub_set) (auto dest: pat_close_suffix intro: suffix_tl_imp)
  with a strip_set [of l] show ?thesis
    by (auto simp: strip_quotes_def Let_def)
qed

lemma title_lines_length: "length (title_lines ls) = length ls"
  by (induction ls) auto

lemma title_lines_no_break: "list_all no_break ls \<Longrightarrow> list_all no_break (title_lines ls)"
proof (induction ls)
  case Nil
  show ?case by simp
next
  case (Cons l ls)
  then show ?case
    using strip_quotes_set [of l] by (auto simp: list_all_iff)
qed

lemma no_break_nlines:
  assumes "no_break l"
  shows "nlines l \<le> 1"
  using nlines_no_break_append [OF assms, of "[]"] by simp

lemma join_nlines: "list_all no_break ls \<Longrightarrow> nlines (join [NL] ls) \<le> length ls"
proof (induction "[NL]" ls rule: join.induct)
  case 1
  show ?case by simp
next
  case (2 l)
  then show ?case using no_break_nlines [of l] by simp
next
  case (3 l v va)
  then have "nlines (join [NL] (v # va)) \<le> length (v # va)" by simp
  moreover have "nlines (l @ NL # join [NL] (v # va)) \<le> max 1 (nlines (NL # join [NL] (v # va)))"
    using 3 by (intro nlines_no_break_append) simp
  ultimately show ?case
    by (simp add: nlines_Cons linebreak_NL)
qed

lemma join_only_nl:
  "list_all no_break ls \<Longrightarrow> c \<in> set (join [NL] ls) \<Longrightarrow> is_linebreak c \<Longrightarrow> c = NL"
  by (induction "[NL]" ls rule: join.induct) (auto simp: list_all_iff)

lemma title_pass_nlines: "title_pass t = Inr u \<Longrightarrow> nlines u \<le> nlines t"
  using join_nlines [OF title_lines_no_break [OF splitlines_no_break [of t]]]
  by (auto simp: title_pass_eq title_lines_length)

lemma title_pass_only_nl:
  "title_pass t = Inr u \<Longrightarrow> c \<in> set u \<Longrightarrow> is_linebreak c \<Longrightarrow> c = NL"
  using join_only_nl [OF title_lines_no_break [OF splitlines_no_break [of t]]]
  by (auto simp: title_pass_eq)

lemma postprocess_nlines: "postprocess t = Inr r \<Longrightarrow> nlines r \<le> nlines t"
proof (cases "t = []")
  case True
  assume "postprocess t = Inr r"
  with True show ?thesis by (simp add: postprocess_def)
next
  case False
  assume "postprocess t = Inr r"
  with False obtain u where u: "title_pass (month_pass (pvalue_pass t)) = Inr u"
    and r: "r = slide_pass (terms_pass u)"
    by (auto simp: postprocess_def split: sum.splits)
  have "nlines r \<le> nlines (terms_pass u)"
    unfolding r by (rule slide_pass_nlines)
  also have "\<dots> \<le> nlines u" by (rule terms_pass_nlines)
  also have "\<dots> \<le> nlines (month_pass (pvalue_pass t))"
    using u by (rule title_pass_nlines)
  also have "\<dots> \<le> nlines (pvalue_pass t)" by (rule month_pass_nlines)
  also have "\<dots> \<le> nlines t" by (rule pvalue_pass_nlines)
  finally show ?thesis .
qed

lemma postprocess_only_nl:
  assumes "postprocess t = Inr r" "c \<in> set r" "is_linebreak c"
  shows "c = NL"
proof (cases "t = []")
  case True
  with assms show ?thesis by (simp add: postprocess_def)
next
  case False
  with assms(1) obtain u where u: "title_pass (month_pass (pvalue_pass t)) = Inr u"
    and r: "r = slide_pass (terms_pass u)"
    by (auto simp: postprocess_def split: sum.splits)
  from assms(2) r have "c \<in> set (terms_pass u)"
    using slide_pass_set by blast
  then have "c \<in> set u \<or> c \<in> set CONTROLGUN \<or> c \<in> set KAIHI"
    using terms_pass_set [of u] by blast
  moreover have "c \<notin> set CONTROLGUN" "c \<notin> set KAIHI"
    using assms(3) by (auto simp: lit_defs is_linebreak_def)
  ultimately have "c \<in> set u" by blast
  with u show ?thesis using assms(3) by (rule title_pass_only_nl)
qed

section \<open>C7: the number of lines\<close>

text \<open>
  C7. The text returned by the normalizer has at most as many lines as its input, the
  lines counted as the normalizer itself counts them, with \<open>splitlines\<close>; and this
  holds for each of the five passes on its own.
\<close>

theorem postprocess_no_new_line:
  "(postprocess t = Inr r \<longrightarrow> nlines r \<le> nlines t) \<and>
   nlines (pvalue_pass t) \<le> nlines t \<and>
   nlines (month_pass t) \<le> nlines t \<and>
   (title_pass t = Inr u \<longrightarrow> nlines u \<le> nlines t) \<and>
   nlines (terms_pass t) \<le> nlines t \<and>
   nlines (slide_pass t) \<le> nlines t"
  using postprocess_nlines [of t r] pvalue_pass_nlines [of t] month_pass_nlines [of t]
    title_pass_nlines [of t u] terms_pass_nlines [of t] slide_pass_nlines [of t]
  by blast

theorem postprocess_no_new_line_witness:
  "postprocess [0x41, MARU, NL, 0x30B9, 0x30E9, 0x30A4, 0x30C9, 0x306B, 0x63D0, 0x793A, MARU] =
     Inr [0x41, MARU, NL] \<and>
   title_pass [0x41, CR, NL, 0x42, NL] = Inr [0x41, NL, 0x42] \<and>
   nlines [0x41, MARU, NL] \<le>
     nlines [0x41, MARU, NL, 0x30B9, 0x30E9, 0x30A4, 0x30C9, 0x306B, 0x63D0, 0x793A, MARU] \<and>
   nlines [0x41, NL, 0x42] \<le> nlines [0x41, CR, NL, 0x42, NL]"
proof -
  have a: "postprocess [0x41, MARU, NL, 0x30B9, 0x30E9, 0x30A4, 0x30C9, 0x306B, 0x63D0, 0x793A, MARU] =
     Inr [0x41, MARU, NL]"
    by (simp add: pass_defs re_defs lit_defs char_defs)
  have b: "title_pass [0x41, CR, NL, 0x42, NL] = Inr [0x41, NL, 0x42]"
    by (simp add: pass_defs re_defs lit_defs char_defs)
  show ?thesis
    using a b
      postprocess_no_new_line [of "[0x41, MARU, NL, 0x30B9, 0x30E9, 0x30A4, 0x30C9, 0x306B, 0x63D0, 0x793A, MARU]"
        "[0x41, MARU, NL]" "[0x41, MARU, NL]"]
      postprocess_no_new_line [of "[0x41, CR, NL, 0x42, NL]" "[]" "[0x41, NL, 0x42]"]
    by blast
qed

section \<open>C10: line boundaries in the output\<close>

lemma splitlines_terminator:
  assumes "e = [NL] \<or> e = [CR] \<or> e = [CR, NL]"
  shows "t \<noteq> [] \<Longrightarrow> \<not> is_linebreak (last t) \<Longrightarrow> splitlines (t @ e) = splitlines t"
proof (induction "length t" arbitrary: t rule: less_induct)
  case less
  have e: "splitlines e = [[]]"
    using assms by (auto simp: splitlines_Cons is_linebreak_def)
  from less.prems obtain c cs where t: "t = c # cs"
    by (cases t) auto
  show ?case
  proof (cases "cs = []")
    case True
    with t less.prems e show ?thesis
      by (simp add: splitlines_Cons)
  next
    case False
    then have last: "\<not> is_linebreak (last cs)"
      using less.prems t by simp
    have cs: "splitlines (cs @ e) = splitlines cs"
      using less.hyps [of cs] False last t by simp
    show ?thesis
    proof (cases "is_linebreak c \<and> c = CR \<and> take 1 cs = [NL]")
      case True
      then obtain cs' where cs': "cs = NL # cs'"
        by (cases cs) auto
      with last have ne: "cs' \<noteq> []"
        by (auto simp: is_linebreak_def)
      then have "splitlines (cs' @ e) = splitlines cs'"
        using less.hyps [of cs'] last cs' t by simp
      with True cs' t show ?thesis
        by (simp add: splitlines_Cons)
    next
      case nocrlf: False
      have "take 1 (cs @ e) = take 1 cs"
        using False by (cases cs) auto
      with nocrlf cs t show ?thesis
        by (auto simp: splitlines_Cons)
    qed
  qed
qed

lemma title_pass_terminator:
  assumes "t \<noteq> []" "\<not> is_linebreak (last t)"
  shows "title_pass (t @ [NL]) = title_pass t \<and> title_pass (t @ [CR]) = title_pass t \<and>
     title_pass (t @ [CR, NL]) = title_pass t"
  using splitlines_terminator [OF _ assms, of "[NL]"] splitlines_terminator [OF _ assms, of "[CR]"]
    splitlines_terminator [OF _ assms, of "[CR, NL]"]
  by (simp add: title_pass_eq)

lemma postprocess_crlf_blank: "postprocess [0x61, CR, NL, CR, NL] = Inr [0x61, NL]"
  by (simp add: pass_defs re_defs lit_defs char_defs)

lemma postprocess_crlf_cr: "postprocess [0x61, CR, NL, 0x62, CR] = Inr [0x61, NL, 0x62]"
  by (simp add: pass_defs re_defs lit_defs char_defs)

text \<open>
  C10, as stated, fails: for the input \<open>a\r\n\r\n\<close> the output is \<open>a\n\<close>, which ends
  with a line terminator. Only one final boundary is dropped.
\<close>

theorem trailing_terminator_counterexample:
  "postprocess [0x61, CR, NL, CR, NL] = Inr [0x61, NL] \<and> last [0x61, NL] = NL \<and> is_linebreak NL"
  by (simp add: postprocess_crlf_blank is_linebreak_def)

text \<open>
  C10, amended. The output of the normalizer contains no carriage return, and no line
  boundary character other than the newline U+000A: the title step splits the whole text
  into lines and joins them with the newline. That step drops one final line boundary
  (\<open>\n\<close>, \<open>\r\<close> or \<open>\r\n\<close>) of a text whose last line is not empty, whether or not a quote
  is stripped. The output can still end with a newline.
\<close>

theorem output_line_boundaries:
  "(postprocess t = Inr r \<longrightarrow> CR \<notin> set r \<and> (\<forall>c\<in>set r. is_linebreak c \<longrightarrow> c = NL)) \<and>
   (t \<noteq> [] \<and> \<not> is_linebreak (last t) \<longrightarrow>
      title_pass (t @ [NL]) = title_pass t \<and> title_pass (t @ [CR]) = title_pass t \<and>
      title_pass (t @ [CR, NL]) = title_pass t) \<and>
   postprocess [0x61, CR, NL, 0x62, CR] = Inr [0x61, NL, 0x62]"
proof -
  have "CR \<notin> set r \<and> (\<forall>c\<in>set r. is_linebreak c \<longrightarrow> c = NL)" if "postprocess t = Inr r"
    using postprocess_only_nl [OF that] linebreak_CR by fastforce
  then show ?thesis
    using title_pass_terminator [of t] postprocess_crlf_cr by blast
qed

theorem output_line_boundaries_witness:
  "postprocess [0x61, CR, 0x62, 0x2028, 0x63] = Inr [0x61, NL, 0x62, NL, 0x63] \<and>
   CR \<notin> set [0x61, NL, 0x62, NL, 0x63] \<and>
   \<not> is_linebreak (last [0x61, CR, 0x62]) \<and>
   title_pass ([0x61, CR, 0x62] @ [CR, NL]) = Inr [0x61, NL, 0x62]"
proof -
  have a: "postprocess [0x61, CR, 0x62, 0x2028, 0x63] = Inr [0x61, NL, 0x62, NL, 0x63]"
    by (simp add: pass_defs re_defs lit_defs char_defs)
  have b: "title_pass [0x61, CR, 0x62] = Inr [0x61, NL, 0x62]"
    by (simp add: pass_defs re_defs lit_defs char_defs)
  have c: "[0x61, CR, 0x62] \<noteq> []" "\<not> is_linebreak (last [0x61, CR, 0x62])"
    by (simp_all add: is_linebreak_def)
  have "CR \<notin> set [0x61, NL, 0x62, NL, 0x63]"
    using a output_line_boundaries [of "[0x61, CR, 0x62, 0x2028, 0x63]" "[0x61, NL, 0x62, NL, 0x63]"]
    by blast
  moreover have "title_pass ([0x61, CR, 0x62] @ [CR, NL]) = title_pass [0x61, CR, 0x62]"
    using c output_line_boundaries [of "[0x61, CR, 0x62]" "[]"] by blast
  ultimately show ?thesis
    using a b c by simp
qed

section \<open>The title line\<close>

lemma pat_open_eq:
  "pat_open prev s =
     (if prev = None
      then (case s of [] \<Rightarrow> None | c # cs \<Rightarrow> if is_open c then Some (dropWhile is_open cs) else None)
      else None)"
  by (simp add: pat_open_def re_plus_def re_set_def re_star_Some split: list.splits)

lemma pat_open_later: "\<not> re_search pat_open (Some x) s"
  by (induction s arbitrary: x) (simp_all add: pat_open_eq)

lemma open_sub: "re_sub pat_open [] None t = dropWhile is_open t"
proof (cases t)
  case Nil
  then show ?thesis by simp
next
  case (Cons c cs)
  have later: "re_sub pat_open [] (Some x) s = s" for x s
    by (rule re_sub_no_match) (rule pat_open_later)
  show ?thesis
    using Cons length_dropWhile_le [of is_open cs]
    by (simp add: re_sub.simps(2) pat_open_eq later)
qed

lemma close_star:
  "cs = [] \<or> last cs \<noteq> NL \<Longrightarrow>
     re_star is_close (re_end Some) cs = (if list_all is_close cs then Some [] else None)"
proof (induction cs)
  case Nil
  show ?case by (simp add: re_end_def)
next
  case (Cons c cs)
  then have "cs = [] \<or> last cs \<noteq> NL" by (auto split: if_splits)
  then have IH: "re_star is_close (re_end Some) cs = (if list_all is_close cs then Some [] else None)"
    by (rule Cons.IH)
  have k: "re_end Some (c # cs) = None"
    using Cons.prems by (auto simp: re_end_def)
  show ?case
    using IH k by simp
qed

lemma pat_close_eq:
  assumes "s = [] \<or> last s \<noteq> NL"
  shows "pat_close prev s = (if s \<noteq> [] \<and> list_all is_close s then Some [] else None)"
proof (cases s)
  case Nil
  then show ?thesis by (simp add: pat_close_def re_plus_def re_set_def)
next
  case (Cons c cs)
  with assms have "cs = [] \<or> last cs \<noteq> NL" by (auto split: if_splits)
  then show ?thesis
    using Cons by (simp add: pat_close_def re_plus_def re_set_def close_star)
qed

lemma dropWhile_snoc:
  "\<not> list_all P (c # cs) \<Longrightarrow> dropWhile P (rev cs @ [c]) = dropWhile P (rev cs) @ [c]"
proof (cases "list_all P cs")
  case True
  assume "\<not> list_all P (c # cs)"
  with True have "\<not> P c" by simp
  moreover from True have "dropWhile P (rev cs) = []"
    by (simp add: list_all_iff)
  moreover from True have "dropWhile P (rev cs @ [c]) = dropWhile P [c]"
    by (intro dropWhile_append2) (simp add: list_all_iff)
  ultimately show ?thesis by simp
next
  case False
  then obtain x where "x \<in> set (rev cs)" "\<not> P x"
    by (auto simp: list_all_iff)
  then show ?thesis by (rule dropWhile_append1)
qed

lemma close_sub:
  "t = [] \<or> last t \<noteq> NL \<Longrightarrow> re_sub pat_close [] prev t = rev (dropWhile is_close (rev t))"
proof (induction t arbitrary: prev)
  case Nil
  show ?case by simp
next
  case (Cons c cs)
  then have tl: "cs = [] \<or> last cs \<noteq> NL" by (auto split: if_splits)
  show ?case
  proof (cases "list_all is_close (c # cs)")
    case True
    then have "dropWhile is_close (rev (c # cs)) = []"
      by (simp add: list_all_iff)
    with True show ?thesis
      using pat_close_eq [OF Cons.prems, of prev]
      by (simp add: re_sub.simps(2) del: dropWhile_eq_Nil_conv)
  next
    case False
    then have "pat_close prev (c # cs) = None"
      using pat_close_eq [OF Cons.prems, of prev] by simp
    then have "re_sub pat_close [] prev (c # cs) = c # rev (dropWhile is_close (rev cs))"
      using Cons.IH [OF tl] by (simp add: re_sub.simps(2))
    then show ?thesis
      using dropWhile_snoc [OF False] by simp
  qed
qed

lemma strip_last: "strip l \<noteq> [] \<Longrightarrow> \<not> is_space (last (strip l))"
proof -
  assume ne: "strip l \<noteq> []"
  let ?d = "dropWhile is_space (rev (dropWhile is_space l))"
  from ne have d: "?d \<noteq> []" by (simp add: strip_def)
  then have "\<not> is_space (hd ?d)" by (rule hd_dropWhile)
  moreover have "last (strip l) = hd ?d"
    using d by (simp add: strip_def last_rev)
  ultimately show ?thesis by simp
qed

lemma space_NL: "is_space NL"
  by (simp add: is_space_def)

lemma last_suffix: "xs \<noteq> [] \<Longrightarrow> suffix xs ys \<Longrightarrow> last xs = last ys"
  by (auto simp: suffix_def)

lemma strip_quotes_eq:
  "strip_quotes l = rev (dropWhile is_close (rev (dropWhile is_open (strip l))))"
proof -
  let ?t = "dropWhile is_open (strip l)"
  have "?t = [] \<or> last ?t \<noteq> NL"
  proof (cases "?t = []")
    case False
    then have "last ?t = last (strip l)"
      by (rule last_suffix) (rule suffix_dropWhile)
    moreover from False have "strip l \<noteq> []" by auto
    ultimately show ?thesis
      using strip_last [of l] space_NL by auto
  qed simp
  then show ?thesis
    by (simp add: strip_quotes_def open_sub close_sub)
qed

lemma strip_quotes_body:
  assumes "strip l = opens @ body @ closes" "list_all is_open opens" "list_all is_close closes"
    "body = [] \<or> (\<not> is_open (hd body) \<and> \<not> is_close (last body))"
  shows "strip_quotes l = body"
proof (cases "body = []")
  case True
  have "list_all is_close (dropWhile is_open closes)"
    using assms(3) by (auto simp: list_all_iff dest: set_dropWhileD)
  then have "dropWhile is_close (rev (dropWhile is_open closes)) = []"
    by (simp add: list_all_iff)
  with True assms(1,2) show ?thesis
    by (simp add: strip_quotes_eq dropWhile_all del: dropWhile_eq_Nil_conv)
next
  case False
  with assms(4) have b: "\<not> is_open (hd body)" "\<not> is_close (last body)" by auto
  have "dropWhile is_open (opens @ body @ closes) = body @ closes"
    using assms(2) b(1) False by (simp add: dropWhile_all dropWhile_append_stop dropWhile_stop)
  moreover have "dropWhile is_close (rev closes @ rev body) = rev body"
    using assms(3) b(2) False
    by (simp add: dropWhile_all dropWhile_stop hd_rev)
  ultimately show ?thesis
    using assms(1) by (simp add: strip_quotes_eq)
qed

lemma title_lines_first:
  "list_all (\<lambda>l. strip l = []) pre \<Longrightarrow> strip l \<noteq> [] \<Longrightarrow>
     title_lines (pre @ l # post) = pre @ strip_quotes l # post"
  by (induction pre) auto

lemma title_lines_blank: "list_all (\<lambda>l. strip l = []) ls \<Longrightarrow> title_lines ls = ls"
  by (induction ls) auto

section \<open>C3: the title line\<close>

lemma postprocess_blank_line: "postprocess [0x20, NL] = Inr [0x20]"
  by (simp add: pass_defs re_defs lit_defs char_defs)

lemma postprocess_title_example:
  "postprocess [0x300C, 0x54, 0x49, 0x54, 0x4C, 0x45, 0x20, 0x54, 0x45, 0x58, 0x54, 0x300D, NL,
      0x300C, 0x78, 0x300D] =
     Inr [0x54, 0x49, 0x54, 0x4C, 0x45, 0x20, 0x54, 0x45, 0x58, 0x54, NL, 0x300C, 0x78, 0x300D]"
  by (simp add: pass_defs re_defs lit_defs char_defs)

text \<open>
  The closing class of line 235 lists the opening white corner bracket U+300E where the
  closing one, U+300F, would match the opening class of line 234: a title in white corner
  brackets keeps its closing bracket.
\<close>

lemma title_white_bracket_kept: "postprocess [0x300E, 0x54, 0x300F] = Inr [0x54, 0x300F]"
  by (simp add: pass_defs re_defs lit_defs char_defs)

text \<open>
  C3, as stated, fails in its last part: the text made of a space and a newline has no
  non-blank line, and the normalizer returns the space alone. The lines are rejoined with
  newlines whether or not a title line was found.
\<close>

theorem no_title_line_counterexample:
  "list_all (\<lambda>l. strip l = []) (splitlines [0x20, NL]) \<and>
   postprocess [0x20, NL] = Inr [0x20] \<and> postprocess [0x20, NL] \<noteq> Inr [0x20, NL]"
  by (simp add: postprocess_blank_line splitlines_Cons strip_def char_defs)

text \<open>
  C3, amended. The title step returns the lines of the text joined by newlines, where the
  first line that is non-blank after trimming is replaced by its trimmed form without its
  leading run of opening glyphs (U+300C, U+300E, U+201C, U+0022, U+FF02) and without its
  trailing run of closing glyphs; the lines before it (all blank) and all lines after it are
  kept as they are; when every line is blank, every line is kept as it is. The closing
  glyphs considered here are U+300D, U+201D, U+0022 and U+FF02, for a title whose body
  ends neither with one of them nor with a white corner bracket U+300E or U+300F. The
  normalizer turns a first line U+300C \<open>TITLE TEXT\<close> U+300D into \<open>TITLE TEXT\<close> and keeps
  the brackets of the second line.
\<close>

theorem title_line_stripped:
  "title_pass t = Inr (join [NL] (title_lines (splitlines t))) \<and>
   (list_all (\<lambda>l. strip l = []) pre \<and> strip l \<noteq> [] \<longrightarrow>
      title_lines (pre @ l # post) = pre @ strip_quotes l # post) \<and>
   (list_all (\<lambda>l. strip l = []) ls \<longrightarrow> title_lines ls = ls) \<and>
   (strip l = opens @ body @ closes \<and> list_all is_open opens \<and>
    list_all (\<lambda>c. is_close c \<and> c \<noteq> 0x300E) closes \<and>
    (body = [] \<or> (\<not> is_open (hd body) \<and> \<not> is_close (last body) \<and> last body \<noteq> 0x300F)) \<longrightarrow>
      strip_quotes l = body) \<and>
   postprocess [0x300C, 0x54, 0x49, 0x54, 0x4C, 0x45, 0x20, 0x54, 0x45, 0x58, 0x54, 0x300D, NL,
      0x300C, 0x78, 0x300D] =
     Inr [0x54, 0x49, 0x54, 0x4C, 0x45, 0x20, 0x54, 0x45, 0x58, 0x54, NL, 0x300C, 0x78, 0x300D]"
proof -
  have "strip_quotes l = body"
    if "strip l = opens @ body @ closes" "list_all is_open opens"
      "list_all (\<lambda>c. is_close c \<and> c \<noteq> 0x300E) closes"
      "body = [] \<or> (\<not> is_open (hd body) \<and> \<not> is_close (last body) \<and> last body \<noteq> 0x300F)"
  proof (rule strip_quotes_body)
    show "list_all is_close closes"
      using that(3) by (simp add: list_all_iff)
    show "body = [] \<or> (\<not> is_open (hd body) \<and> \<not> is_close (last body))"
      using that(4) by blast
  qed (rule that(1), rule that(2))
  then show ?thesis
    using title_pass_eq [of t] title_lines_first [of pre l post] title_lines_blank [of ls]
      postprocess_title_example
    by blast
qed

theorem title_line_stripped_witness:
  "list_all (\<lambda>l. strip l = []) [[], [0x20]] \<and> strip [0x20, 0x201C, 0x300C, 0x41, 0x20, 0x42, 0x300D, 0x201D, 0x9] \<noteq> [] \<and>
   strip [0x20, 0x201C, 0x300C, 0x41, 0x20, 0x42, 0x300D, 0x201D, 0x9] =
     [0x201C, 0x300C] @ [0x41, 0x20, 0x42] @ [0x300D, 0x201D] \<and>
   list_all is_open [0x201C, 0x300C] \<and> list_all (\<lambda>c. is_close c \<and> c \<noteq> 0x300E) [0x300D, 0x201D] \<and>
   \<not> is_open (hd [0x41, 0x20, 0x42]) \<and> \<not> is_close (last [0x41, 0x20, 0x42]) \<and>
   title_lines ([[], [0x20]] @ [0x20, 0x201C, 0x300C, 0x41, 0x20, 0x42, 0x300D, 0x201D, 0x9] # [[0x22, 0x43, 0x22]]) =
     [[], [0x20], [0x41, 0x20, 0x42], [0x22, 0x43, 0x22]] \<and>
   title_lines [[], [0x20]] = [[], [0x20]]"
proof -
  let ?l = "[0x20, 0x201C, 0x300C, 0x41, 0x20, 0x42, 0x300D, 0x201D, 0x9]"
  have h: "list_all (\<lambda>l. strip l = []) [[], [0x20]]" "strip ?l \<noteq> []"
    "strip ?l = [0x201C, 0x300C] @ [0x41, 0x20, 0x42] @ [0x300D, 0x201D]"
    "list_all is_open [0x201C, 0x300C]" "list_all (\<lambda>c. is_close c \<and> c \<noteq> 0x300E) [0x300D, 0x201D]"
    "\<not> is_open (hd [0x41, 0x20, 0x42])" "\<not> is_close (last [0x41, 0x20, 0x42])"
    "last [0x41, 0x20, 0x42] \<noteq> (0x300F :: nat)"
    by (simp_all add: strip_def char_defs)
  note inst = title_line_stripped [of "[]" "[[], [0x20]]" ?l "[[0x22, 0x43, 0x22]]" "[[], [0x20]]"
      "[0x201C, 0x300C]" "[0x41, 0x20, 0x42]" "[0x300D, 0x201D]"]
  have a: "title_lines ([[], [0x20]] @ ?l # [[0x22, 0x43, 0x22]]) =
      [[], [0x20]] @ strip_quotes ?l # [[0x22, 0x43, 0x22]]"
    using h inst by blast
  have b: "strip_quotes ?l = [0x41, 0x20, 0x42]"
    using h inst by blast
  have c: "title_lines [[], [0x20]] = [[], [0x20]]"
    using h inst by blast
  show ?thesis
    using h a b c by simp
qed

section \<open>The retry loop\<close>










lemma wait_exponential_values:
  "wait_exponential 1 2 20 1 = 2" "wait_exponential 1 2 20 2 = 2" "wait_exponential 1 2 20 3 = 4"
  by (simp_all add: wait_exponential_def)









section \<open>C4: the retry policy\<close>






section \<open>A stretch of text without a full stop\<close>









section \<open>C5: the forbidden sentence\<close>









end
